theory Spec2Isabelle
  imports Main "HOL-Library.Multiset"
begin

section \<open>Text: characters, lines and the three line patterns\<close>

text \<open>
  A Python \<open>str\<close> is modelled as a \<open>string\<close> whose characters are code points below 256.
  On that range \<open>str.isspace\<close> (used by \<open>str.strip\<close> and by \<open>\s\<close> of the \<open>re\<close> module)
  holds for the code points 9 to 13, 28 to 31, 32, 133 and 160, the class \<open>\d\<close> is the ten
  ASCII digits, and \<open>str.splitlines\<close> breaks a text at the code points 10 to 13, 28 to 30
  and 133.
\<close>

definition is_space :: "char \<Rightarrow> bool" where
  "is_space c = (of_char c \<in> {9, 10, 11, 12, 13, 28, 29, 30, 31, 32, 133, 160 :: nat})"

definition is_digit :: "char \<Rightarrow> bool" where
  "is_digit c = (48 \<le> (of_char c :: nat) \<and> (of_char c :: nat) \<le> 57)"

definition is_linebreak :: "char \<Rightarrow> bool" where
  "is_linebreak c = (of_char c \<in> {10, 11, 12, 13, 28, 29, 30, 133 :: nat})"

definition newline :: char where
  "newline = CHR 0x0A"

text \<open>\<open>s.strip()\<close>: whitespace removed at both ends.\<close>

definition lstrip :: "string \<Rightarrow> string" where
  "lstrip s = dropWhile is_space s"

definition strip :: "string \<Rightarrow> string" where
  "strip s = rev (dropWhile is_space (rev (dropWhile is_space s)))"

text \<open>\<open>"\n".join(xs)\<close>.\<close>

fun join_nl :: "string list \<Rightarrow> string" where
  "join_nl [] = []"
| "join_nl [x] = x"
| "join_nl (x # y # ys) = x @ newline # join_nl (y # ys)"

text \<open>The decimal rendering of a non-negative integer, as \<open>f"{i}"\<close> produces it.\<close>

definition digit_char :: "nat \<Rightarrow> char" where
  "digit_char d = char_of (48 + d)"

fun str_nat :: "nat \<Rightarrow> string" where
  "str_nat n = (if n < 10 then [digit_char n] else str_nat (n div 10) @ [digit_char (n mod 10)])"

declare str_nat.simps [simp del]

text \<open>
  The tail \<open>(.*)$\<close> of a pattern, tried at the rest \<open>r\<close> of a line: \<open>.\<close> matches every
  character but the newline, and \<open>$\<close> matches at the end of the string or just before a
  newline that ends the string. The result is the text of the group.
\<close>

definition dot_tail :: "string \<Rightarrow> string option" where
  "dot_tail r =
     (let g = takeWhile (\<lambda>c. c \<noteq> newline) r;
          e = dropWhile (\<lambda>c. c \<noteq> newline) r
      in if e = [] \<or> e = [newline] then Some g else None)"

text \<open>
  \<open>QUESTION_START_RE = ^\s*(\d+)\.\s*(.*)$\<close>, matched at the start of the line. The
  result holds the two groups. The whitespace run, the digit run and the period cannot
  trade characters, so the greedy match is the only one.
\<close>

definition question_start_re :: "string \<Rightarrow> (string \<times> string) option" where
  "question_start_re line =
     (let r1 = dropWhile is_space line;
          ds = takeWhile is_digit r1;
          r2 = dropWhile is_digit r1
      in if ds = [] then None
         else (case r2 of
                 [] \<Rightarrow> None
               | c # r3 \<Rightarrow>
                   if c \<noteq> CHR ''.'' then None
                   else (case dot_tail (dropWhile is_space r3) of
                           None \<Rightarrow> None
                         | Some g2 \<Rightarrow> Some (ds, g2))))"

text \<open>\<open>CHOICE_RE = ^\s*([A-D])\.\s+(.*)$\<close>; the result is (letter, text).\<close>

definition choice_re :: "string \<Rightarrow> (string \<times> string) option" where
  "choice_re line =
     (case dropWhile is_space line of
        c # d # r2 \<Rightarrow>
          if c \<in> set ''ABCD'' \<and> d = CHR ''.'' \<and> r2 \<noteq> [] \<and> is_space (hd r2)
          then (case dot_tail (dropWhile is_space r2) of
                  None \<Rightarrow> None
                | Some g2 \<Rightarrow> Some ([c], g2))
          else None
      | _ \<Rightarrow> None)"

text \<open>
  \<open>ANSWER_RE = ^\s*answer\s*:\s*([A-D])\s*$\<close> with \<open>re.IGNORECASE\<close>: the word and the
  letter match in either case. The result is the group as it stands in the line.
\<close>

definition lower :: "char \<Rightarrow> char" where
  "lower c = (if 65 \<le> (of_char c :: nat) \<and> (of_char c :: nat) \<le> 90
              then char_of ((of_char c :: nat) + 32) else c)"

definition upper :: "char \<Rightarrow> char" where
  "upper c = (if 97 \<le> (of_char c :: nat) \<and> (of_char c :: nat) \<le> 122
              then char_of ((of_char c :: nat) - 32) else c)"

text \<open>A literal word matched at the start of \<open>s\<close>, letters in either case.\<close>

definition word_ci :: "string \<Rightarrow> string \<Rightarrow> bool" where
  "word_ci w s = (map lower (take (length w) s) = w)"

definition answer_re :: "string \<Rightarrow> string option" where
  "answer_re line =
     (let r1 = dropWhile is_space line
      in if \<not> word_ci ''answer'' r1 then None
         else (case dropWhile is_space (drop (length ''answer'') r1) of
                 [] \<Rightarrow> None
               | c # r3 \<Rightarrow>
                   if c \<noteq> CHR '':'' then None
                   else (case dropWhile is_space r3 of
                           [] \<Rightarrow> None
                         | l # r5 \<Rightarrow>
                             if lower l \<in> set ''abcd'' \<and> list_all is_space r5
                             then Some [l] else None)))"

section \<open>The parser\<close>

record Question =
  stem_lines :: "string list"
  choices :: "(string \<times> string) list"
  answer_letter :: string
  start_line_no :: nat

text \<open>
  A \<open>ParseError\<close> carries its message. The model keeps the parts the message is built
  from: the cause (with the line number and letter it names), the 1-based line where the
  block starts, and the snippet; \<open>message\<close> renders them as the source does.
\<close>

datatype cause =
    MissingChoices
  | MissingStem
  | EofBeforeChoices
  | ExpectedChoiceLine nat
  | DuplicateChoiceLetter string nat
  | IncompleteLetterSet
  | MissingAnswerEof
  | ExpectedAnswerLine nat

datatype parse_error = ParseError cause nat string

fun cause_text :: "cause \<Rightarrow> string" where
  "cause_text MissingChoices = ''missing choices before next question start.''"
| "cause_text MissingStem = ''missing question stem text before choices.''"
| "cause_text EofBeforeChoices = ''reached EOF before choices.''"
| "cause_text (ExpectedChoiceLine k) =
     ''expected choice line A-D around line '' @ str_nat k @ ''.''"
| "cause_text (DuplicateChoiceLetter l k) =
     ''duplicate choice letter '' @ [CHR 0x27] @ l @ [CHR 0x27] @ '' at line '' @ str_nat k @ ''.''"
| "cause_text IncompleteLetterSet = ''expected exactly one choice each for A, B, C, and D.''"
| "cause_text MissingAnswerEof = ''missing Answer line before EOF.''"
| "cause_text (ExpectedAnswerLine k) =
     ''expected '' @ [CHR 0x27] @ ''Answer: <A-D>'' @ [CHR 0x27] @ '' around line '' @ str_nat k @ ''.''"

fun message :: "parse_error \<Rightarrow> string" where
  "message (ParseError c start snip) =
     ''Malformed question near line '' @ str_nat start @ '': '' @ cause_text c
       @ [newline] @ ''Snippet:'' @ [newline] @ snip"

text \<open>\<open>snippet\<close>: the lines \<open>lines[max(0, start - 1) : min(len(lines), end)]\<close>, joined.\<close>

definition snippet :: "string list \<Rightarrow> nat \<Rightarrow> nat \<Rightarrow> string" where
  "snippet lines start end =
     (let lo = start - 1;
          hi = min (length lines) end
      in join_nl (take (hi - lo) (drop lo lines)))"

text \<open>
  The loop that skips the spacer lines after a bare numbering line; it runs only while no
  stem text has been collected.
\<close>

function skip_spacer :: "string list \<Rightarrow> string list \<Rightarrow> nat \<Rightarrow> nat" where
  "skip_spacer lines stem i =
     (if i < length lines \<and> stem = [] \<and> strip (lines ! i) = []
      then skip_spacer lines stem (i + 1) else i)"
  by pat_completeness auto
termination
  by (relation "measure (\<lambda>(lines, stem, i). length lines - i)") auto

declare skip_spacer.simps [simp del]

text \<open>The loop that collects the stem up to the first choice line.\<close>

function stem_loop ::
  "string list \<Rightarrow> nat \<Rightarrow> nat \<Rightarrow> string list \<Rightarrow> parse_error + (nat \<times> string list)" where
  "stem_loop lines start i stem =
     (if i < length lines \<and> choice_re (lines ! i) = None
      then (if question_start_re (lines ! i) \<noteq> None
            then Inl (ParseError MissingChoices start (snippet lines start (i + 1)))
            else stem_loop lines start (i + 1) (stem @ [lines ! i]))
      else Inr (i, stem))"
  by pat_completeness auto
termination
  by (relation "measure (\<lambda>(lines, start, i, stem). length lines - i)") auto

declare stem_loop.simps [simp del]

text \<open>The loop that collects choices until four are held or the input ends.\<close>

function choice_loop ::
  "string list \<Rightarrow> nat \<Rightarrow> nat \<Rightarrow> (string \<times> string) list \<Rightarrow> string set
     \<Rightarrow> parse_error + (nat \<times> (string \<times> string) list \<times> string set)" where
  "choice_loop lines start i chs seen =
     (if i < length lines \<and> length chs < 4
      then (if strip (lines ! i) = [] then choice_loop lines start (i + 1) chs seen
            else (case choice_re (lines ! i) of
                    None \<Rightarrow>
                      Inl (ParseError (ExpectedChoiceLine (i + 1)) start
                             (snippet lines start (min (length lines) (i + 3))))
                  | Some (letter, text) \<Rightarrow>
                      if letter \<in> seen
                      then Inl (ParseError (DuplicateChoiceLetter letter (i + 1)) start
                                  (snippet lines start (min (length lines) (i + 2))))
                      else choice_loop lines start (i + 1) (chs @ [(letter, text)])
                             (insert letter seen)))
      else Inr (i, chs, seen))"
  by pat_completeness auto
termination
  by (relation "measure (\<lambda>(lines, start, i, chs, seen). length lines - i)") auto

declare choice_loop.simps [simp del]

text \<open>The loop that skips blank lines before the Answer line.\<close>

function skip_blank :: "string list \<Rightarrow> nat \<Rightarrow> nat" where
  "skip_blank lines i =
     (if i < length lines \<and> strip (lines ! i) = [] then skip_blank lines (i + 1) else i)"
  by pat_completeness auto
termination
  by (relation "measure (\<lambda>(lines, i). length lines - i)") auto

declare skip_blank.simps [simp del]

definition all_letters :: "string set" where
  "all_letters = {''A'', ''B'', ''C'', ''D''}"

text \<open>
  One pass of the body of the main loop, from a line at index \<open>start_idx\<close> that matched the
  start pattern with trailing text \<open>first_stem\<close>: the question and the index after its
  Answer line, or the error raised.
\<close>

definition parse_block ::
  "string list \<Rightarrow> nat \<Rightarrow> string \<Rightarrow> parse_error + (Question \<times> nat)" where
  "parse_block lines start_idx first_stem =
     (let n = length lines;
          start = start_idx + 1;
          stem0 = (if first_stem \<noteq> [] then [first_stem] else []);
          i1 = skip_spacer lines stem0 (start_idx + 1)
      in case stem_loop lines start i1 stem0 of
           Inl e \<Rightarrow> Inl e
         | Inr (i2, stem) \<Rightarrow>
             if stem = []
             then Inl (ParseError MissingStem start (snippet lines start (min n (i2 + 2))))
             else if i2 \<ge> n
             then Inl (ParseError EofBeforeChoices start
                         (snippet lines start (min n (start_idx + 8))))
             else (case choice_loop lines start i2 [] {} of
                     Inl e \<Rightarrow> Inl e
                   | Inr (i3, chs, seen) \<Rightarrow>
                       if seen \<noteq> all_letters
                       then Inl (ParseError IncompleteLetterSet start
                                   (snippet lines start (min n (i3 + 2))))
                       else (let i4 = skip_blank lines i3
                             in if i4 \<ge> n
                                then Inl (ParseError MissingAnswerEof start
                                            (snippet lines start (min n (start_idx + 12))))
                                else (case answer_re (lines ! i4) of
                                        None \<Rightarrow>
                                          Inl (ParseError (ExpectedAnswerLine (i4 + 1)) start
                                                 (snippet lines start (min n (i4 + 2))))
                                      | Some g \<Rightarrow>
                                          Inr (\<lparr>stem_lines = stem, choices = chs,
                                                 answer_letter = map upper g,
                                                 start_line_no = start\<rparr>, i4 + 1)))))"


lemma skip_spacer_ge: "i \<le> skip_spacer lines stem i"
proof (induction lines stem i rule: skip_spacer.induct)
  case (1 lines stem i)
  show ?case
  proof (cases "i < length lines \<and> stem = [] \<and> strip (lines ! i) = []")
    case True
    with 1 have "i + 1 \<le> skip_spacer lines stem (i + 1)" by blast
    with True show ?thesis by (subst skip_spacer.simps) simp
  next
    case False
    then show ?thesis by (subst skip_spacer.simps) auto
  qed
qed

lemma skip_blank_ge: "i \<le> skip_blank lines i"
proof (induction lines i rule: skip_blank.induct)
  case (1 lines i)
  show ?case
  proof (cases "i < length lines \<and> strip (lines ! i) = []")
    case True
    with 1 have "i + 1 \<le> skip_blank lines (i + 1)" by blast
    with True show ?thesis by (subst skip_blank.simps) simp
  next
    case False
    then show ?thesis by (subst skip_blank.simps) auto
  qed
qed

lemma stem_loop_ge: "stem_loop lines start i stem = Inr (i', stem') \<Longrightarrow> i \<le> i'"
proof (induction lines start i stem rule: stem_loop.induct)
  case (1 lines start i stem)
  from "1.prems" "1.IH" show ?case
    by (auto simp: stem_loop.simps [of lines start i stem] split: if_splits)
qed

lemma choice_loop_ge:
  "choice_loop lines start i chs seen = Inr (i', chs', seen') \<Longrightarrow> i \<le> i'"
proof (induction lines start i chs seen rule: choice_loop.induct)
  case (1 lines start i chs seen)
  show ?case
  proof (cases "i < length lines \<and> length chs < 4")
    case False
    with "1.prems" show ?thesis
      by (simp add: choice_loop.simps [of lines start i chs seen])
  next
    case True
    show ?thesis
    proof (cases "strip (lines ! i) = []")
      case blank: True
      with True "1.prems" have "choice_loop lines start (i + 1) chs seen = Inr (i', chs', seen')"
        by (simp add: choice_loop.simps [of lines start i chs seen])
      from "1.IH" (1) [OF True blank this] show ?thesis by simp
    next
      case nonblank: False
      with True "1.prems" obtain l t where
        m: "choice_re (lines ! i) = Some (l, t)" and
        fresh: "l \<notin> seen" and
        r: "choice_loop lines start (i + 1) (chs @ [(l, t)]) (insert l seen)
              = Inr (i', chs', seen')"
        by (auto simp: choice_loop.simps [of lines start i chs seen]
                 split: option.splits if_splits)
      from "1.IH" (2) [OF True nonblank m refl fresh r] show ?thesis by simp
    qed
  qed
qed

lemma parse_block_gt: "parse_block lines i first_stem = Inr (q, i') \<Longrightarrow> i < i'"
proof -
  assume a: "parse_block lines i first_stem = Inr (q, i')"
  define stem0 where "stem0 = (if first_stem \<noteq> [] then [first_stem] else [])"
  define i1 where "i1 = skip_spacer lines stem0 (i + 1)"
  have i1: "i + 1 \<le> i1" unfolding i1_def by (rule skip_spacer_ge)
  from a obtain i2 stem where s: "stem_loop lines (i + 1) i1 stem0 = Inr (i2, stem)"
    unfolding parse_block_def Let_def stem0_def i1_def
    by (auto split: sum.splits)
  from a s obtain i3 chs seen where c: "choice_loop lines (i + 1) i2 [] {} = Inr (i3, chs, seen)"
    unfolding parse_block_def Let_def stem0_def i1_def
    by (auto split: sum.splits if_splits)
  from a s c have e: "i' = skip_blank lines i3 + 1"
    unfolding parse_block_def Let_def stem0_def i1_def
    by (auto split: sum.splits if_splits option.splits)
  from stem_loop_ge [OF s] choice_loop_ge [OF c] skip_blank_ge [of i3 lines] i1 e
  show ?thesis by linarith
qed

text \<open>
  The main loop of \<open>parse_questions\<close>: a line that does not match the start pattern is
  counted as discarded; a line that matches starts a block, and the first malformed block
  ends the run.
\<close>

function parse_loop ::
  "string list \<Rightarrow> nat \<Rightarrow> Question list \<Rightarrow> nat \<Rightarrow> parse_error + (Question list \<times> nat)" where
  "parse_loop lines i questions discarded =
     (if i < length lines
      then (case question_start_re (lines ! i) of
              None \<Rightarrow> parse_loop lines (i + 1) questions (discarded + 1)
            | Some (ds, first_stem) \<Rightarrow>
                (case parse_block lines i first_stem of
                   Inl e \<Rightarrow> Inl e
                 | Inr (q, i') \<Rightarrow> parse_loop lines i' (questions @ [q]) discarded))
      else Inr (questions, discarded))"
  by pat_completeness auto
termination
  by (relation "measure (\<lambda>(lines, i, questions, discarded). length lines - i)")
     (auto dest: parse_block_gt)

declare parse_loop.simps [simp del]

definition parse_questions :: "string list \<Rightarrow> parse_error + (Question list \<times> nat)" where
  "parse_questions lines = parse_loop lines 0 [] 0"


section \<open>The shuffle\<close>

record ShuffledQuestion =
  stem_lines :: "string list"
  shuffled_choices :: "string list"
  new_answer_letter :: string

datatype shuffle_error = StopIteration | IndexError

text \<open>
  Modelled from the library: \<open>random.Random.shuffle\<close>, which is not code of this
  repository. It walks \<open>i\<close> from \<open>len(x) - 1\<close> down to 1, draws \<open>j = randbelow(i + 1)\<close>
  and exchanges \<open>x[i]\<close> and \<open>x[j]\<close>. The generator is a state of any type \<open>'r\<close> with its
  drawing function \<open>rb\<close> as a parameter; a draw below \<open>n\<close> lies in \<open>0..<n\<close>, which the
  model writes as a reduction modulo \<open>n\<close>.
\<close>

fun shuffle_loop ::
  "(nat \<Rightarrow> 'r \<Rightarrow> nat \<times> 'r) \<Rightarrow> nat \<Rightarrow> 'a list \<Rightarrow> 'r \<Rightarrow> 'a list \<times> 'r" where
  "shuffle_loop rb 0 xs r = (xs, r)"
| "shuffle_loop rb (Suc k) xs r =
     (let i = Suc k;
          (d, r') = rb (i + 1) r;
          j = d mod (i + 1)
      in shuffle_loop rb k (xs[i := xs ! j, j := xs ! i]) r')"

definition rng_shuffle :: "(nat \<Rightarrow> 'r \<Rightarrow> nat \<times> 'r) \<Rightarrow> 'a list \<Rightarrow> 'r \<Rightarrow> 'a list \<times> 'r" where
  "rng_shuffle rb xs r = shuffle_loop rb (length xs - 1) xs r"

text \<open>\<open>next(idx for idx, c in enumerate(xs) if P c)\<close>: the first index, if there is one.\<close>

fun first_index :: "('a \<Rightarrow> bool) \<Rightarrow> 'a list \<Rightarrow> nat option" where
  "first_index P [] = None"
| "first_index P (x # xs) =
     (if P x then Some 0 else map_option Suc (first_index P xs))"

text \<open>
  The body of the loop of \<open>shuffle_questions\<close> for one question. The choices are shuffled
  first; each \<open>next\<close> over an exhausted generator raises \<open>StopIteration\<close>, and \<open>"ABCD"[idx]\<close>
  raises \<open>IndexError\<close> from index 4 on.
\<close>

definition shuffle_one ::
  "(nat \<Rightarrow> 'r \<Rightarrow> nat \<times> 'r) \<Rightarrow> Question \<Rightarrow> 'r \<Rightarrow> shuffle_error + (ShuffledQuestion \<times> 'r)" where
  "shuffle_one rb question r =
     (let (shuffled, r') = rng_shuffle rb (choices question) r
      in case find (\<lambda>c. fst c = answer_letter question) (choices question) of
           None \<Rightarrow> Inl StopIteration
         | Some correct_choice \<Rightarrow>
             (case first_index (\<lambda>c. c = correct_choice) shuffled of
                None \<Rightarrow> Inl StopIteration
              | Some correct_idx \<Rightarrow>
                  if correct_idx < length ''ABCD''
                  then Inr (\<lparr>stem_lines = Question.stem_lines question,
                             shuffled_choices = map snd shuffled,
                             new_answer_letter = [''ABCD'' ! correct_idx]\<rparr>, r')
                  else Inl IndexError))"

fun shuffle_questions ::
  "(nat \<Rightarrow> 'r \<Rightarrow> nat \<times> 'r) \<Rightarrow> Question list \<Rightarrow> 'r
     \<Rightarrow> shuffle_error + (ShuffledQuestion list \<times> 'r)" where
  "shuffle_questions rb [] r = Inr ([], r)"
| "shuffle_questions rb (question # questions) r =
     (case shuffle_one rb question r of
        Inl e \<Rightarrow> Inl e
      | Inr (sq, r') \<Rightarrow>
          (case shuffle_questions rb questions r' of
             Inl e \<Rightarrow> Inl e
           | Inr (sqs, r'') \<Rightarrow> Inr (sq # sqs, r'')))"

section \<open>Rendering\<close>

text \<open>
  The lines one question adds to \<open>out\<close> in \<open>format_combined\<close>; \<open>q.stem_lines[0]\<close> raises
  \<open>IndexError\<close> on an empty stem, and \<open>zip\<close> stops at the shorter of the letters and the
  choices.
\<close>

definition choice_lines :: "string list \<Rightarrow> string list" where
  "choice_lines texts = map (\<lambda>(letter, t). letter # ''. '' @ t) (zip ''ABCD'' texts)"

definition combined_block :: "nat \<Rightarrow> ShuffledQuestion \<Rightarrow> shuffle_error + string list" where
  "combined_block i q =
     (case stem_lines q of
        [] \<Rightarrow> Inl IndexError
      | s0 # rest \<Rightarrow>
          Inr ((str_nat i @ ''. '' @ s0) # rest @ choice_lines (shuffled_choices q)
                 @ [[], ''Answer: '' @ new_answer_letter q, []]))"

fun combined_lines :: "nat \<Rightarrow> ShuffledQuestion list \<Rightarrow> shuffle_error + string list" where
  "combined_lines i [] = Inr []"
| "combined_lines i (q # qs) =
     (case combined_block i q of
        Inl e \<Rightarrow> Inl e
      | Inr b \<Rightarrow> (case combined_lines (i + 1) qs of
                    Inl e \<Rightarrow> Inl e
                  | Inr bs \<Rightarrow> Inr (b @ bs)))"

definition format_combined :: "ShuffledQuestion list \<Rightarrow> shuffle_error + string" where
  "format_combined questions =
     (case combined_lines 1 questions of Inl e \<Rightarrow> Inl e | Inr out \<Rightarrow> Inr (join_nl out))"

fun answer_lines :: "nat \<Rightarrow> ShuffledQuestion list \<Rightarrow> string list" where
  "answer_lines i [] = []"
| "answer_lines i (q # qs) = (str_nat i @ ''. '' @ new_answer_letter q) # answer_lines (i + 1) qs"

definition format_answers_only :: "ShuffledQuestion list \<Rightarrow> string" where
  "format_answers_only questions =
     (let out = answer_lines 1 questions
      in join_nl out @ (if out \<noteq> [] then [newline] else []))"

section \<open>The run on the lines of a file\<close>

text \<open>
  Modelled from the library: \<open>str.splitlines\<close>. A line ends at a line-break character,
  \<open>
\<close> counts as one break, and no empty line follows a final break.
\<close>

function splitlines :: "string \<Rightarrow> string list" where
  "splitlines s =
     (if s = [] then []
      else (let l = takeWhile (\<lambda>c. \<not> is_linebreak c) s
            in case dropWhile (\<lambda>c. \<not> is_linebreak c) s of
                 [] \<Rightarrow> [l]
               | c # r \<Rightarrow>
                   if c = CHR 0x0D \<and> r \<noteq> [] \<and> hd r = newline
                   then l # splitlines (tl r) else l # splitlines r))"
  by pat_completeness auto
termination
proof (relation "measure length")
  fix s :: string and l c r
  assume "dropWhile (\<lambda>c. \<not> is_linebreak c) s = c # r"
  then have "length (c # r) \<le> length s"
    by (metis length_dropWhile_le)
  then show "(r, s) \<in> measure length" and "(tl r, s) \<in> measure length"
    by simp_all
qed simp

declare splitlines.simps [simp del]

datatype run_error = Parse parse_error | Shuffle shuffle_error

text \<open>
  Modelled from the library: \<open>random.Random(seed)\<close>. With an integer seed the generator
  starts in a state that the seed alone determines (\<open>seeded\<close>); with \<open>None\<close> it starts
  in a state drawn from the system (\<open>entropy\<close>).
\<close>

definition new_rng :: "(int \<Rightarrow> 'r) \<Rightarrow> 'r \<Rightarrow> int option \<Rightarrow> 'r" where
  "new_rng seeded entropy seed = (case seed of None \<Rightarrow> entropy | Some k \<Rightarrow> seeded k)"

text \<open>
  The combined run of \<open>process_file\<close> from the lines read to the text written: parse,
  shuffle with a generator made from the seed, render.
\<close>

definition process_combined ::
  "(nat \<Rightarrow> 'r \<Rightarrow> nat \<times> 'r) \<Rightarrow> (int \<Rightarrow> 'r) \<Rightarrow> 'r \<Rightarrow> string list \<Rightarrow> int option
     \<Rightarrow> run_error + string" where
  "process_combined rb seeded entropy lines seed =
     (let rng = new_rng seeded entropy seed
      in case parse_questions lines of
           Inl e \<Rightarrow> Inl (Parse e)
         | Inr (parsed, discarded) \<Rightarrow>
             (case shuffle_questions rb parsed rng of
                Inl e \<Rightarrow> Inl (Shuffle e)
              | Inr (shuffled, rng') \<Rightarrow>
                  (case format_combined shuffled of
                     Inl e \<Rightarrow> Inl (Shuffle e)
                   | Inr out \<Rightarrow> Inr out)))"

section \<open>Concrete runs\<close>

text \<open>
  C7. On empty input (no lines) \<open>parse_questions\<close> succeeds with no question and a
  discarded-line count of zero; shuffling the empty result gives the empty sequence, and
  \<open>format_combined\<close> renders it as the empty string, so the whole combined run returns
  the empty string.
\<close>

theorem c7_empty_input:
  "parse_questions [] = Inr ([], 0)
   \<and> shuffle_questions rb [] r = Inr ([], r)
   \<and> format_combined [] = Inr []
   \<and> process_combined rb seeded entropy [] seed = Inr []"
  by (simp add: parse_questions_def parse_loop.simps format_combined_def process_combined_def)

text \<open>
  C5 (as the code behaves). On the lines \<open>1. Q\<close>, \<open>A. x\<close>, \<open>B. y\<close>, \<open>C. z\<close>,
  \<open>Answer: A\<close> the choice loop still wants a fourth choice when it reaches the Answer
  line, which is neither blank nor a choice line: \<open>parse_questions\<close> fails with the cause
  "expected choice line A-D around line 5", for the block that starts at line 1, with all
  five lines as the snippet.
\<close>

theorem c5_three_choices_expected_choice_line:
  "parse_questions [''1. Q'', ''A. x'', ''B. y'', ''C. z'', ''Answer: A'']
     = Inl (ParseError (ExpectedChoiceLine 5) 1
              ''1. Q\<newline>A. x\<newline>B. y\<newline>C. z\<newline>Answer: A'')
   \<and> map_sum message id
         (parse_questions [''1. Q'', ''A. x'', ''B. y'', ''C. z'', ''Answer: A''])
     = Inl ''Malformed question near line 1: expected choice line A-D around line 5.\<newline>Snippet:\<newline>1. Q\<newline>A. x\<newline>B. y\<newline>C. z\<newline>Answer: A''"
  by code_simp

text \<open>
  C5 as the specification states it does not hold: on those five lines the error is not
  the incomplete-letter-set error, whatever its snippet.
\<close>

theorem c5_not_incomplete_letter_set:
  "\<not> (\<exists>snip. parse_questions [''1. Q'', ''A. x'', ''B. y'', ''C. z'', ''Answer: A'']
                 = Inl (ParseError IncompleteLetterSet 1 snip))"
proof -
  have "parse_questions [''1. Q'', ''A. x'', ''B. y'', ''C. z'', ''Answer: A'']
          = Inl (ParseError (ExpectedChoiceLine 5) 1
                   ''1. Q\<newline>A. x\<newline>B. y\<newline>C. z\<newline>Answer: A'')"
    by code_simp
  then show ?thesis by simp
qed

section \<open>The answer key\<close>

lemma join_nl_terminated:
  "out \<noteq> [] \<Longrightarrow> join_nl out @ [newline] = concat (map (\<lambda>l. l @ [newline]) out)"
  by (induction out rule: join_nl.induct) simp_all

lemma answer_lines_eq:
  "answer_lines i qs =
     map (\<lambda>(n, q). str_nat n @ ''. '' @ new_answer_letter q) (zip [i..<i + length qs] qs)"
proof (induction qs arbitrary: i)
  case Nil
  show ?case by simp
next
  case (Cons q qs)
  have "[i..<i + length (q # qs)] = i # [Suc i..<i + length (q # qs)]"
    by (rule upt_conv_Cons) simp
  then have "[i..<i + length (q # qs)] = i # [i + 1..<(i + 1) + length qs]"
    by simp
  with Cons [of "i + 1"] show ?case by simp
qed

text \<open>
  C8. \<open>format_answers_only\<close> writes, for the questions in order and numbered from 1, the
  text \<open>{n}. {new_answer_letter}\<close> followed by a newline, and nothing else; the result ends
  with a newline exactly when there is at least one question, and is the empty string for
  the empty sequence.
\<close>

theorem c8_answers_only_lines:
  "format_answers_only qs =
     concat (map (\<lambda>(n, q). str_nat n @ ''. '' @ new_answer_letter q @ [newline])
               (zip [1..<1 + length qs] qs))
   \<and> ((format_answers_only qs \<noteq> [] \<and> last (format_answers_only qs) = newline) = (qs \<noteq> []))
   \<and> format_answers_only [] = []"
proof -
  let ?out = "answer_lines 1 qs"
  have shape: "format_answers_only qs = concat (map (\<lambda>l. l @ [newline]) ?out)"
  proof (cases "?out = []")
    case True
    then show ?thesis by (simp add: format_answers_only_def)
  next
    case False
    then show ?thesis by (simp add: format_answers_only_def join_nl_terminated)
  qed
  have first: "format_answers_only qs =
     concat (map (\<lambda>(n, q). str_nat n @ ''. '' @ new_answer_letter q @ [newline])
               (zip [1..<1 + length qs] qs))"
    unfolding shape answer_lines_eq [of 1 qs]
    by (simp add: case_prod_unfold comp_def)
  have second:
    "(format_answers_only qs \<noteq> [] \<and> last (format_answers_only qs) = newline) = (qs \<noteq> [])"
  proof (cases qs rule: rev_cases)
    case Nil
    then show ?thesis by (simp add: format_answers_only_def)
  next
    case (snoc ys y)
    have "answer_lines 1 qs \<noteq> []" using snoc by (cases ys) simp_all
    then obtain zs z where "answer_lines 1 qs = zs @ [z]"
      by (metis rev_exhaust)
    then show ?thesis using snoc unfolding shape by simp
  qed
  have third: "format_answers_only [] = []" by (simp add: format_answers_only_def)
  from first second third show ?thesis by blast
qed

section \<open>The correct choice under the shuffle\<close>

text \<open>
  The canonical order of the letters (A is 0, B is 1, C is 2, D is 3), the text a question
  holds for a letter, and the questions the parser's postconditions describe.
\<close>

definition letter_index :: "string \<Rightarrow> nat option" where
  "letter_index l = first_index (\<lambda>c. [c] = l) ''ABCD''"

definition original_text :: "Question \<Rightarrow> string \<Rightarrow> string option" where
  "original_text q l = map_option snd (find (\<lambda>c. fst c = l) (choices q))"

definition well_formed :: "Question \<Rightarrow> bool" where
  "well_formed q =
     (length (choices q) = 4 \<and> distinct (map fst (choices q))
      \<and> set (map fst (choices q)) = all_letters \<and> answer_letter q \<in> all_letters)"

definition keeps_answer :: "Question \<Rightarrow> ShuffledQuestion \<Rightarrow> bool" where
  "keeps_answer q sq =
     (\<exists>i. letter_index (new_answer_letter sq) = Some i \<and> i < length (shuffled_choices sq)
          \<and> Some (shuffled_choices sq ! i) = original_text q (answer_letter q))"

lemma shuffle_loop_mset:
  "k < length xs \<Longrightarrow> mset (fst (shuffle_loop rb k xs r)) = mset xs"
proof (induction k arbitrary: xs r)
  case 0
  show ?case by simp
next
  case (Suc k)
  obtain d r' where d: "rb (Suc k + 1) r = (d, r')" by (cases "rb (Suc k + 1) r")
  define j where "j = d mod (Suc k + 1)"
  define ys where "ys = xs[Suc k := xs ! j, j := xs ! Suc k]"
  have "j < Suc k + 1" unfolding j_def by simp
  with Suc.prems have j: "j < length xs" by linarith
  have "mset ys = mset xs" unfolding ys_def using j Suc.prems by (rule mset_swap)
  moreover have "k < length ys" using Suc.prems by (simp add: ys_def)
  ultimately have "mset (fst (shuffle_loop rb k ys r')) = mset xs"
    using Suc.IH [of ys r'] by simp
  moreover have "shuffle_loop rb (Suc k) xs r = shuffle_loop rb k ys r'"
    using d by (simp add: Let_def ys_def j_def)
  ultimately show ?case by simp
qed

lemma rng_shuffle_mset: "mset (fst (rng_shuffle rb xs r)) = mset xs"
proof (cases xs)
  case Nil
  then show ?thesis by (simp add: rng_shuffle_def)
next
  case (Cons a list)
  then have "length xs - 1 < length xs" by simp
  then show ?thesis unfolding rng_shuffle_def by (rule shuffle_loop_mset)
qed

lemma first_index_Some:
  "x \<in> set xs \<Longrightarrow> \<exists>i. first_index (\<lambda>c. c = x) xs = Some i \<and> i < length xs \<and> xs ! i = x"
  by (induction xs) auto

lemma first_index_SomeD:
  "first_index P xs = Some i \<Longrightarrow> i < length xs \<and> P (xs ! i)"
proof (induction xs arbitrary: i)
  case Nil
  then show ?case by simp
next
  case (Cons a xs)
  then show ?case by (auto split: if_splits)
qed

lemma letter_index_ABCD: "i < 4 \<Longrightarrow> letter_index [''ABCD'' ! i] = Some i"
proof -
  assume "i < 4"
  then consider "i = 0" | "i = 1" | "i = 2" | "i = 3" by linarith
  then show ?thesis by cases (simp_all add: letter_index_def)
qed

lemma ABCD_nth_letter: "i < 4 \<Longrightarrow> [''ABCD'' ! i] \<in> all_letters"
proof -
  assume "i < 4"
  then consider "i = 0" | "i = 1" | "i = 2" | "i = 3" by linarith
  then show ?thesis by cases (simp_all add: all_letters_def)
qed

lemma find_in_set: "find P xs = Some x \<Longrightarrow> x \<in> set xs"
  by (induction xs) (auto split: if_splits)

lemma lookups_succeed:
  assumes len: "length (choices q) = 4"
    and ans: "answer_letter q \<in> fst ` set (choices q)"
  shows "\<exists>cc idx. find (\<lambda>c. fst c = answer_letter q) (choices q) = Some cc
           \<and> first_index (\<lambda>c. c = cc) (fst (rng_shuffle rb (choices q) r)) = Some idx
           \<and> idx < 4 \<and> fst (rng_shuffle rb (choices q) r) ! idx = cc"
proof -
  let ?shuffled = "fst (rng_shuffle rb (choices q) r)"
  have ms: "mset ?shuffled = mset (choices q)" by (rule rng_shuffle_mset)
  then have len': "length ?shuffled = 4" using len by (metis size_mset)
  from ans obtain cc where cc: "find (\<lambda>c. fst c = answer_letter q) (choices q) = Some cc"
    by (cases "find (\<lambda>c. fst c = answer_letter q) (choices q)") (auto simp: find_None_iff)
  then have "cc \<in> set (choices q)" by (rule find_in_set)
  then have "cc \<in> set ?shuffled" using mset_eq_setD [OF ms] by simp
  then have "\<exists>i. first_index (\<lambda>c. c = cc) ?shuffled = Some i \<and> i < length ?shuffled
                 \<and> ?shuffled ! i = cc"
    by (rule first_index_Some)
  then obtain idx where idx: "first_index (\<lambda>c. c = cc) ?shuffled = Some idx"
    "idx < length ?shuffled" "?shuffled ! idx = cc"
    by (elim exE conjE)
  from idx(2) len' have "idx < 4" by simp
  with cc idx show ?thesis by blast
qed

lemma shuffle_one_spec:
  assumes len: "length (choices q) = 4"
    and ans: "answer_letter q \<in> fst ` set (choices q)"
  shows "\<exists>sq r'. shuffle_one rb q r = Inr (sq, r')
           \<and> stem_lines sq = Question.stem_lines q
           \<and> mset (shuffled_choices sq) = mset (map snd (choices q))
           \<and> new_answer_letter sq \<in> all_letters
           \<and> keeps_answer q sq"
proof -
  obtain shuffled r' where sh: "rng_shuffle rb (choices q) r = (shuffled, r')"
    by (cases "rng_shuffle rb (choices q) r")
  have ms: "mset shuffled = mset (choices q)"
    using rng_shuffle_mset [of rb "choices q" r] sh by simp
  then have len': "length shuffled = 4" using len by (metis size_mset)
  from lookups_succeed [OF len ans, of rb r] sh obtain cc idx where
    cc: "find (\<lambda>c. fst c = answer_letter q) (choices q) = Some cc" and
    idx: "first_index (\<lambda>c. c = cc) shuffled = Some idx" and
    i4: "idx < 4" and at: "shuffled ! idx = cc"
    by auto
  let ?sq = "\<lparr>stem_lines = Question.stem_lines q, shuffled_choices = map snd shuffled,
              new_answer_letter = [''ABCD'' ! idx]\<rparr>"
  have run: "shuffle_one rb q r = Inr (?sq, r')"
    using sh cc idx i4 by (simp add: shuffle_one_def)
  have k1: "letter_index (new_answer_letter ?sq) = Some idx"
    using letter_index_ABCD [OF i4] by simp
  have k2: "idx < length (shuffled_choices ?sq)" using i4 len' by simp
  have k3: "Some (shuffled_choices ?sq ! idx) = original_text q (answer_letter q)"
    using i4 len' at cc by (simp add: original_text_def)
  have keep: "keeps_answer q ?sq"
    unfolding keeps_answer_def using k1 k2 k3 by blast
  have "mset (map snd shuffled) = mset (map snd (choices q))"
    using ms by (metis mset_map)
  moreover have "new_answer_letter ?sq \<in> all_letters"
    using ABCD_nth_letter [OF i4] by simp
  moreover have "stem_lines ?sq = Question.stem_lines q" by simp
  moreover have "shuffled_choices ?sq = map snd shuffled" by simp
  ultimately show ?thesis using run keep by metis
qed

lemma well_formed_answer: "well_formed q \<Longrightarrow> answer_letter q \<in> fst ` set (choices q)"
  by (simp add: well_formed_def)

lemma shuffle_questions_spec:
  assumes "\<forall>q \<in> set qs. length (choices q) = 4 \<and> answer_letter q \<in> fst ` set (choices q)"
  shows "\<exists>sqs r'. shuffle_questions rb qs r = Inr (sqs, r') \<and> length sqs = length qs
           \<and> (\<forall>k < length qs.
                 stem_lines (sqs ! k) = Question.stem_lines (qs ! k)
                 \<and> mset (shuffled_choices (sqs ! k)) = mset (map snd (choices (qs ! k)))
                 \<and> new_answer_letter (sqs ! k) \<in> all_letters
                 \<and> keeps_answer (qs ! k) (sqs ! k))"
  using assms
proof (induction qs arbitrary: r)
  case Nil
  show ?case by simp
next
  case (Cons q qs)
  from Cons.prems have "length (choices q) = 4" "answer_letter q \<in> fst ` set (choices q)"
    by simp_all
  from shuffle_one_spec [OF this, of rb r] obtain sq r1 where
    one: "shuffle_one rb q r = Inr (sq, r1)" and
    p: "stem_lines sq = Question.stem_lines q"
       "mset (shuffled_choices sq) = mset (map snd (choices q))"
       "new_answer_letter sq \<in> all_letters" "keeps_answer q sq"
    by blast
  from Cons.IH [of r1] Cons.prems obtain sqs r2 where
    rest: "shuffle_questions rb qs r1 = Inr (sqs, r2)" "length sqs = length qs" and
    ps: "\<forall>k < length qs.
           stem_lines (sqs ! k) = Question.stem_lines (qs ! k)
           \<and> mset (shuffled_choices (sqs ! k)) = mset (map snd (choices (qs ! k)))
           \<and> new_answer_letter (sqs ! k) \<in> all_letters
           \<and> keeps_answer (qs ! k) (sqs ! k)"
    by auto
  have run: "shuffle_questions rb (q # qs) r = Inr (sq # sqs, r2)"
    using one rest by simp
  have "\<forall>k < length (q # qs).
           stem_lines ((sq # sqs) ! k) = Question.stem_lines ((q # qs) ! k)
           \<and> mset (shuffled_choices ((sq # sqs) ! k)) = mset (map snd (choices ((q # qs) ! k)))
           \<and> new_answer_letter ((sq # sqs) ! k) \<in> all_letters
           \<and> keeps_answer ((q # qs) ! k) ((sq # sqs) ! k)"
  proof (intro allI impI)
    fix k assume "k < length (q # qs)"
    then show "stem_lines ((sq # sqs) ! k) = Question.stem_lines ((q # qs) ! k)
           \<and> mset (shuffled_choices ((sq # sqs) ! k)) = mset (map snd (choices ((q # qs) ! k)))
           \<and> new_answer_letter ((sq # sqs) ! k) \<in> all_letters
           \<and> keeps_answer ((q # qs) ! k) ((sq # sqs) ! k)"
      using p ps by (cases k) simp_all
  qed
  with run rest show ?case by simp
qed


definition example_question :: Question where
  "example_question =
     \<lparr>Question.stem_lines = [''Q''],
      choices = [(''A'', ''x''), (''B'', ''y''), (''C'', ''z''), (''D'', ''w'')],
      answer_letter = ''C'', start_line_no = 1\<rparr>"

definition counter_rng :: "nat \<Rightarrow> nat \<Rightarrow> nat \<times> nat" where
  "counter_rng n r = (r, r + 1)"

lemma well_formed_example: "well_formed example_question"
  by (simp add: well_formed_def example_question_def all_letters_def)

text \<open>
  C1. For questions with exactly four choices lettered A, B, C, D (each once) and an answer
  letter among them, \<open>shuffle_questions\<close> returns one shuffled question per question, and
  in each the choice text at the index of \<open>new_answer_letter\<close> (A is 0, B is 1, C is 2,
  D is 3) is the text of the choice whose original letter was \<open>answer_letter\<close>.
\<close>

theorem c1_correct_choice_stays_marked:
  assumes "\<forall>q \<in> set qs. well_formed q"
  shows "\<exists>sqs r'. shuffle_questions rb qs r = Inr (sqs, r') \<and> length sqs = length qs
           \<and> (\<forall>k < length qs. keeps_answer (qs ! k) (sqs ! k))"
proof -
  from assms have "\<forall>q \<in> set qs. length (choices q) = 4
      \<and> answer_letter q \<in> fst ` set (choices q)"
    by (simp add: well_formed_def)
  from shuffle_questions_spec [OF this, of rb r] show ?thesis by blast
qed

text \<open>C1 on an example: answer C, a generator that draws 2, 3, 4.\<close>

theorem c1_example:
  "well_formed example_question
   \<and> (\<exists>sqs r'. shuffle_questions counter_rng [example_question] 2 = Inr (sqs, r')
         \<and> length sqs = 1 \<and> keeps_answer example_question (sqs ! 0))"
proof -
  have wf: "\<forall>q \<in> set [example_question]. well_formed q"
    using well_formed_example by simp
  from c1_correct_choice_stays_marked [OF wf, of counter_rng 2] well_formed_example
  show ?thesis by auto
qed

text \<open>
  C6. On questions that satisfy the parser's postconditions \<open>shuffle_questions\<close> returns
  a result, one shuffled question per question; for each such question and every state of
  the generator, the lookup of the choice with the answer letter and the lookup of its
  index in the shuffled sequence both succeed, and the index is within \<open>"ABCD"\<close>.
\<close>

theorem c6_shuffle_total:
  assumes "\<forall>q \<in> set qs. well_formed q"
  shows "(\<exists>sqs r'. shuffle_questions rb qs r = Inr (sqs, r') \<and> length sqs = length qs)
         \<and> (\<forall>q \<in> set qs. \<forall>s. \<exists>cc idx.
                find (\<lambda>c. fst c = answer_letter q) (choices q) = Some cc
                \<and> first_index (\<lambda>c. c = cc) (fst (rng_shuffle rb (choices q) s)) = Some idx
                \<and> idx < length ''ABCD'')"
proof -
  from assms have pre: "\<forall>q \<in> set qs. length (choices q) = 4
      \<and> answer_letter q \<in> fst ` set (choices q)"
    by (simp add: well_formed_def)
  from shuffle_questions_spec [OF pre, of rb r]
  have total: "\<exists>sqs r'. shuffle_questions rb qs r = Inr (sqs, r') \<and> length sqs = length qs"
    by blast
  have "\<exists>cc idx. find (\<lambda>c. fst c = answer_letter q) (choices q) = Some cc
          \<and> first_index (\<lambda>c. c = cc) (fst (rng_shuffle rb (choices q) s)) = Some idx
          \<and> idx < length ''ABCD''" if "q \<in> set qs" for q s
  proof -
    from pre that have "length (choices q) = 4" "answer_letter q \<in> fst ` set (choices q)"
      by simp_all
    from lookups_succeed [OF this, of rb s] show ?thesis by auto
  qed
  with total show ?thesis by blast
qed

text \<open>C6 on the same example: the run returns the shuffled question and the new state.\<close>

theorem c6_example:
  "well_formed example_question
   \<and> shuffle_questions counter_rng [example_question] 2
       = Inr ([\<lparr>stem_lines = [''Q''], shuffled_choices = [''y'', ''w'', ''x'', ''z''],
                new_answer_letter = ''D''\<rparr>], 5)"
proof -
  have wf: "\<forall>q \<in> set [example_question]. well_formed q"
    using well_formed_example by simp
  from c6_shuffle_total [OF wf, of counter_rng 2]
  obtain sqs r' where "shuffle_questions counter_rng [example_question] 2 = Inr (sqs, r')"
    by blast
  moreover have "shuffle_questions counter_rng [example_question] 2
       = Inr ([\<lparr>stem_lines = [''Q''], shuffled_choices = [''y'', ''w'', ''x'', ''z''],
                new_answer_letter = ''D''\<rparr>], 5)"
    by code_simp
  ultimately show ?thesis using well_formed_example by simp
qed

section \<open>Properties of the line patterns\<close>

lemma strip_empty_iff: "strip s = [] \<longleftrightarrow> (\<forall>c \<in> set s. is_space c)"
proof -
  have "strip s = [] \<longleftrightarrow> (\<forall>x \<in> set (dropWhile is_space s). is_space x)"
    by (simp add: strip_def)
  also have "\<dots> \<longleftrightarrow> dropWhile is_space (dropWhile is_space s) = []"
    by (simp only: dropWhile_eq_Nil_conv)
  also have "\<dots> \<longleftrightarrow> dropWhile is_space s = []"
    by (simp only: dropWhile_idem)
  also have "\<dots> \<longleftrightarrow> (\<forall>c \<in> set s. is_space c)"
    by (simp only: dropWhile_eq_Nil_conv)
  finally show ?thesis .
qed

lemma dot_tail_SomeD:
  "dot_tail r = Some g \<Longrightarrow> g = takeWhile (\<lambda>c. c \<noteq> newline) r \<and> newline \<notin> set g"
  by (auto simp: dot_tail_def Let_def split: if_splits dest: set_takeWhileD)

lemma dot_tail_dropWhile_space:
  assumes "dot_tail (dropWhile is_space r) = Some g"
  shows "(g = [] \<or> \<not> is_space (hd g)) \<and> set g \<subseteq> set r"
proof -
  let ?d = "dropWhile is_space r"
  from assms have g: "g = takeWhile (\<lambda>c. c \<noteq> newline) ?d" by (simp add: dot_tail_SomeD)
  have sub: "set g \<subseteq> set r"
    unfolding g by (meson set_takeWhileD set_dropWhileD subsetI)
  have "\<not> is_space (hd g)" if "g \<noteq> []"
  proof -
    from that g have "?d \<noteq> []" by (metis takeWhile.simps(1))
    then have ns: "\<not> is_space (hd ?d)" by (rule hd_dropWhile)
    from that g have "hd g = hd ?d" by (cases ?d) (auto split: if_splits)
    with ns show ?thesis by simp
  qed
  with sub show ?thesis by blast
qed

lemma question_start_re_SomeD:
  assumes "question_start_re line = Some (ds, g)"
  shows "(g = [] \<or> \<not> is_space (hd g)) \<and> set g \<subseteq> set line \<and> newline \<notin> set g"
proof -
  from assms obtain r3 where r3: "dot_tail (dropWhile is_space r3) = Some g"
    and sub: "set r3 \<subseteq> set line"
  proof -
    let ?r1 = "dropWhile is_space line"
    from assms obtain c r3 where
      r2: "dropWhile is_digit ?r1 = c # r3" and t: "dot_tail (dropWhile is_space r3) = Some g"
      by (auto simp: question_start_re_def Let_def simp del: dropWhile_eq_Nil_conv
             split: if_split_asm list.split_asm option.split_asm)
    have "set (c # r3) \<subseteq> set line"
      unfolding r2 [symmetric] by (meson set_dropWhileD subsetI)
    then have "set r3 \<subseteq> set line" by simp
    with t that show ?thesis by blast
  qed
  from dot_tail_dropWhile_space [OF r3] dot_tail_SomeD [OF r3] sub show ?thesis by blast
qed

lemma choice_re_SomeD:
  assumes "choice_re line = Some (l, t)"
  shows "l \<in> all_letters \<and> (t = [] \<or> \<not> is_space (hd t)) \<and> set t \<subseteq> set line
         \<and> newline \<notin> set t"
proof -
  from assms obtain c d r2 where
    r1: "dropWhile is_space line = c # d # r2" and
    c: "c \<in> set ''ABCD''" and l: "l = [c]" and
    t: "dot_tail (dropWhile is_space r2) = Some t"
    by (auto simp: choice_re_def simp del: dropWhile_eq_Nil_conv
             split: list.split_asm if_split_asm option.split_asm)
  have "set (c # d # r2) \<subseteq> set line"
    unfolding r1 [symmetric] by (meson set_dropWhileD subsetI)
  then have sub: "set r2 \<subseteq> set line" by simp
  from c l have "l \<in> all_letters" by (auto simp: all_letters_def)
  with dot_tail_dropWhile_space [OF t] dot_tail_SomeD [OF t] sub show ?thesis by blast
qed

lemma of_char_eq_nat: "(of_char c :: nat) = n \<Longrightarrow> c = char_of n"
  by (metis char_of_char)

lemma lower_abcd:
  assumes "lower l \<in> set ''abcd''"
  shows "l \<in> set ''ABCDabcd''"
proof (cases "65 \<le> (of_char l :: nat) \<and> (of_char l :: nat) \<le> 90")
  case False
  with assms show ?thesis by (simp add: lower_def)
next
  case True
  define n where "n = (of_char l :: nat)"
  have l: "l = char_of n" unfolding n_def by simp
  from True have lo: "lower l = char_of (n + 32)" by (simp add: lower_def n_def)
  from True have "n + 32 < 256" by (simp add: n_def)
  then have "(of_char (lower l) :: nat) = n + 32" unfolding lo by (simp add: take_bit_eq_mod)
  moreover from assms have "(of_char (lower l) :: nat) \<in> {97, 98, 99, 100}" by auto
  ultimately have "n \<in> {65, 66, 67, 68}" by auto
  then show ?thesis unfolding l by (auto simp: char_of_eq_iff)
qed

lemma upper_ABCDabcd:
  assumes "l \<in> set ''ABCDabcd''"
  shows "[upper l] \<in> all_letters"
  using assms by (auto simp: upper_def all_letters_def char_of_eq_iff)

lemma upper_ABCD: "[c] \<in> all_letters \<Longrightarrow> upper c = c"
  by (auto simp: upper_def all_letters_def)

lemma digit_char_is_digit: "d < 10 \<Longrightarrow> is_digit (digit_char d)"
  by (simp add: is_digit_def digit_char_def take_bit_eq_mod)


lemma answer_re_SomeD:
  assumes "answer_re line = Some g"
  shows "map upper g \<in> all_letters"
proof -
  let ?r2 = "dropWhile is_space (drop (length ''answer'') (dropWhile is_space line))"
  from assms obtain c r3 where r2: "?r2 = c # r3"
    by (cases ?r2) (simp_all add: answer_re_def Let_def del: dropWhile_eq_Nil_conv split: if_split_asm)
  with assms obtain l r5 where r4: "dropWhile is_space r3 = l # r5"
    by (cases "dropWhile is_space r3")
       (simp_all add: answer_re_def Let_def del: dropWhile_eq_Nil_conv split: if_split_asm)
  with assms r2 have g: "g = [l]" and l: "lower l \<in> set ''abcd''"
    by (simp_all add: answer_re_def Let_def del: dropWhile_eq_Nil_conv split: if_split_asm)
  from upper_ABCDabcd [OF lower_abcd [OF l]] g show ?thesis by simp
qed

subsection \<open>What each loop returns\<close>

lemma skip_spacer_nonempty: "stem \<noteq> [] \<Longrightarrow> skip_spacer lines stem i = i"
  by (subst skip_spacer.simps) simp

lemma skip_spacer_stops:
  "skip_spacer lines [] i = j \<Longrightarrow> j < length lines \<Longrightarrow> strip (lines ! j) \<noteq> []"
proof (induction lines "[] :: string list" i rule: skip_spacer.induct)
  case (1 lines i)
  show ?case
  proof (cases "i < length lines \<and> strip (lines ! i) = []")
    case True
    with "1.prems" have "skip_spacer lines [] (i + 1) = j"
      by (simp add: skip_spacer.simps [of lines "[]" i])
    with "1.hyps" True "1.prems" show ?thesis by simp
  next
    case False
    with "1.prems" have "j = i" by (simp add: skip_spacer.simps [of lines "[]" i])
    with False "1.prems" show ?thesis by simp
  qed
qed

lemma skip_blank_stops:
  "skip_blank lines i = j \<Longrightarrow> j < length lines \<Longrightarrow> strip (lines ! j) \<noteq> []"
proof (induction lines i rule: skip_blank.induct)
  case (1 lines i)
  show ?case
  proof (cases "i < length lines \<and> strip (lines ! i) = []")
    case True
    with "1.prems" have "skip_blank lines (i + 1) = j"
      by (simp add: skip_blank.simps [of lines i])
    with "1.IH" True "1.prems" show ?thesis by simp
  next
    case False
    with "1.prems" have "j = i" by (simp add: skip_blank.simps [of lines i])
    with False "1.prems" show ?thesis by simp
  qed
qed

lemma take_drop_step:
  assumes "i < length xs" "Suc i \<le> j"
  shows "take (j - i) (drop i xs) = xs ! i # take (j - Suc i) (drop (Suc i) xs)"
proof -
  from assms(2) have "j - i = Suc (j - Suc i)" by simp
  moreover from assms(1) have "drop i xs = xs ! i # drop (Suc i) xs"
    by (simp add: Cons_nth_drop_Suc)
  ultimately show ?thesis by simp
qed

lemma stem_loop_spec:
  "stem_loop lines start i stem = Inr (i', stem') \<Longrightarrow>
     i \<le> i' \<and> stem' = stem @ take (i' - i) (drop i lines)
     \<and> (\<forall>s \<in> set (take (i' - i) (drop i lines)).
           choice_re s = None \<and> question_start_re s = None)"
proof (induction lines start i stem rule: stem_loop.induct)
  case (1 lines start i stem)
  show ?case
  proof (cases "i < length lines \<and> choice_re (lines ! i) = None")
    case False
    with "1.prems" have "i' = i" "stem' = stem"
      by (auto simp: stem_loop.simps [of lines start i stem])
    then show ?thesis by simp
  next
    case True
    have q: "question_start_re (lines ! i) = None"
    proof (rule ccontr)
      assume "question_start_re (lines ! i) \<noteq> None"
      with True have "stem_loop lines start i stem
          = Inl (ParseError MissingChoices start (snippet lines start (i + 1)))"
        by (simp add: stem_loop.simps [of lines start i stem])
      with "1.prems" show False by simp
    qed
    with True "1.prems" have
      r: "stem_loop lines start (i + 1) (stem @ [lines ! i]) = Inr (i', stem')"
      by (simp add: stem_loop.simps [of lines start i stem])
    from q have nq: "\<not> question_start_re (lines ! i) \<noteq> None" by simp
    from "1.IH" [OF True nq r] have
      le: "i + 1 \<le> i'" and
      st: "stem' = (stem @ [lines ! i]) @ take (i' - (i + 1)) (drop (i + 1) lines)" and
      al: "\<forall>s \<in> set (take (i' - (i + 1)) (drop (i + 1) lines)).
             choice_re s = None \<and> question_start_re s = None"
      by simp_all
    from True le have td: "take (i' - i) (drop i lines)
        = lines ! i # take (i' - Suc i) (drop (Suc i) lines)"
      by (intro take_drop_step) simp_all
    from le st td al True q show ?thesis by simp
  qed
qed

definition from_lines :: "string list \<Rightarrow> (string \<times> string) list \<Rightarrow> bool" where
  "from_lines lines chs = (\<forall>c \<in> set chs. \<exists>ln \<in> set lines. choice_re ln = Some c)"

lemma choice_loop_inv:
  assumes "choice_loop lines start i chs seen = Inr (i', chs', seen')"
    and "seen = set (map fst chs)" and "distinct (map fst chs)"
    and "from_lines lines chs" and "length chs \<le> 4"
  shows "seen' = set (map fst chs') \<and> distinct (map fst chs') \<and> from_lines lines chs'
         \<and> length chs' \<le> 4 \<and> (length chs' < 4 \<longrightarrow> length lines \<le> i')"
  using assms
proof (induction lines start i chs seen rule: choice_loop.induct)
  case (1 lines start i chs seen)
  note run = "1.prems"(1)
  show ?case
  proof (cases "i < length lines \<and> length chs < 4")
    case False
    with run have "i' = i" "chs' = chs" "seen' = seen"
      by (auto simp: choice_loop.simps [of lines start i chs seen])
    with False "1.prems" show ?thesis by auto
  next
    case True
    show ?thesis
    proof (cases "strip (lines ! i) = []")
      case blank: True
      with True run have "choice_loop lines start (i + 1) chs seen = Inr (i', chs', seen')"
        by (simp add: choice_loop.simps [of lines start i chs seen])
      from "1.IH"(1) [OF True blank this "1.prems"(2-5)] show ?thesis .
    next
      case nonblank: False
      with True run obtain l t where
        m: "choice_re (lines ! i) = Some (l, t)" and
        fresh: "l \<notin> seen" and
        r: "choice_loop lines start (i + 1) (chs @ [(l, t)]) (insert l seen)
              = Inr (i', chs', seen')"
        by (auto simp: choice_loop.simps [of lines start i chs seen]
                 split: option.splits if_splits)
      have a: "insert l seen = set (map fst (chs @ [(l, t)]))"
        using "1.prems"(2) by simp
      have b: "distinct (map fst (chs @ [(l, t)]))"
        using "1.prems"(2,3) fresh by simp
      have c: "from_lines lines (chs @ [(l, t)])"
        using "1.prems"(4) m True unfolding from_lines_def by (auto intro: nth_mem)
      have d: "length (chs @ [(l, t)]) \<le> 4" using True by simp
      from "1.IH"(2) [OF True nonblank m refl fresh r a b c d] show ?thesis .
    qed
  qed
qed

lemma card_all_letters: "card all_letters = 4"
  by (simp add: all_letters_def)

lemma from_lines_letters: "from_lines lines chs \<Longrightarrow> set (map fst chs) \<subseteq> all_letters"
proof
  fix l assume f: "from_lines lines chs" and "l \<in> set (map fst chs)"
  then obtain t where "(l, t) \<in> set chs" by auto
  with f obtain ln where "choice_re ln = Some (l, t)" unfolding from_lines_def by blast
  then show "l \<in> all_letters" by (simp add: choice_re_SomeD)
qed

lemma four_distinct_letters:
  assumes "distinct ls" "set ls \<subseteq> all_letters" "length ls = 4"
  shows "set ls = all_letters"
proof -
  from assms(1,3) have "card (set ls) = 4" by (simp add: distinct_card)
  with assms(2) show ?thesis
    by (intro card_subset_eq) (simp_all add: card_all_letters all_letters_def)
qed

lemma choice_loop_from_start:
  assumes "choice_loop lines start i [] {} = Inr (i', chs, seen)"
  shows "seen = set (map fst chs) \<and> distinct (map fst chs) \<and> from_lines lines chs
         \<and> length chs \<le> 4 \<and> (length chs < 4 \<longrightarrow> length lines \<le> i')"
  by (rule choice_loop_inv [OF assms]) (simp_all add: from_lines_def)

text \<open>
  C9. When the choice loop, started with no choice and no letter seen, ends without an
  error and holds four choices, the letters seen are exactly A, B, C, D; so the check after
  the loop can fail only when the loop ended with fewer than four choices, which happens
  only at the end of the input.
\<close>

theorem c9_four_choices_complete:
  assumes "choice_loop lines start i [] {} = Inr (i', chs, seen)"
  shows "(length chs = 4 \<longrightarrow> seen = all_letters)
         \<and> (seen \<noteq> all_letters \<longrightarrow> length chs < 4 \<and> length lines \<le> i')"
proof -
  from choice_loop_from_start [OF assms] have
    s: "seen = set (map fst chs)" and d: "distinct (map fst chs)" and
    f: "from_lines lines chs" and le: "length chs \<le> 4" and
    eof: "length chs < 4 \<longrightarrow> length lines \<le> i'"
    by simp_all
  have full: "seen = all_letters" if "length chs = 4"
    unfolding s using d from_lines_letters [OF f] that
    by (intro four_distinct_letters) simp_all
  with le eof show ?thesis by (cases "length chs = 4") auto
qed


text \<open>
  C9 on two runs: four choice lines give the full letter set; an input that ends after two
  choice lines leaves the loop at the end of the input with an incomplete set.
\<close>

theorem c9_example:
  "(\<exists>i' chs seen.
      choice_loop [''1. Q'', ''A. x'', ''B. y'', ''C. z'', ''D. w'', ''Answer: A''] 1 1 [] {}
        = Inr (i', chs, seen) \<and> length chs = 4 \<and> seen = all_letters)
   \<and> (\<exists>i' chs seen.
      choice_loop [''1. Q'', ''A. x'', ''B. y''] 1 1 [] {} = Inr (i', chs, seen)
        \<and> seen \<noteq> all_letters \<and> length chs < 4 \<and> 3 \<le> i')"
proof -
  have r1: "choice_loop [''1. Q'', ''A. x'', ''B. y'', ''C. z'', ''D. w'', ''Answer: A''] 1 1 [] {}
      = Inr (5, [(''A'', ''x''), (''B'', ''y''), (''C'', ''z''), (''D'', ''w'')],
             {''A'', ''B'', ''C'', ''D''})"
    by code_simp
  have r2: "choice_loop [''1. Q'', ''A. x'', ''B. y''] 1 1 [] {}
      = Inr (3, [(''A'', ''x''), (''B'', ''y'')], {''A'', ''B''})"
    by code_simp
  have "''C'' \<in> all_letters" "''C'' \<notin> {''A'', ''B''}"
    by (simp_all add: all_letters_def)
  then have ne: "{''A'', ''B''} \<noteq> all_letters" by metis
  from c9_four_choices_complete [OF r1] have "{''A'', ''B'', ''C'', ''D''} = all_letters"
    by simp
  moreover from c9_four_choices_complete [OF r2] ne
  have "length [(''A'', ''x''), (''B'', ''y'')] < 4
        \<and> length [''1. Q'', ''A. x'', ''B. y''] \<le> (3::nat)"
    by blast
  ultimately show ?thesis using r1 r2 ne by simp
qed

section \<open>What a parsed question looks like\<close>

lemma parse_block_InrD:
  assumes "parse_block lines s fs = Inr (q, e)"
  obtains i2 stem i3 chs g where
    "stem_loop lines (s + 1) (skip_spacer lines (if fs \<noteq> [] then [fs] else []) (s + 1))
       (if fs \<noteq> [] then [fs] else []) = Inr (i2, stem)"
    "stem \<noteq> []" "i2 < length lines"
    "choice_loop lines (s + 1) i2 [] {} = Inr (i3, chs, all_letters)"
    "skip_blank lines i3 < length lines"
    "answer_re (lines ! skip_blank lines i3) = Some g"
    "q = \<lparr>Question.stem_lines = stem, choices = chs, answer_letter = map upper g,
          start_line_no = s + 1\<rparr>"
    "e = skip_blank lines i3 + 1"
proof -
  let ?stem0 = "if fs \<noteq> [] then [fs] else []"
  let ?i1 = "skip_spacer lines ?stem0 (s + 1)"
  from assms obtain i2 stem where
    st: "stem_loop lines (s + 1) ?i1 ?stem0 = Inr (i2, stem)"
    unfolding parse_block_def Let_def by (auto split: sum.split_asm)
  from assms st have ne: "stem \<noteq> []" and lt: "i2 < length lines"
    unfolding parse_block_def Let_def by (auto split: if_split_asm)
  from assms st ne lt obtain i3 chs seen where
    ch: "choice_loop lines (s + 1) i2 [] {} = Inr (i3, chs, seen)"
    unfolding parse_block_def Let_def by (auto split: sum.split_asm)
  from assms st ne lt ch have seen: "seen = all_letters"
    unfolding parse_block_def Let_def by (auto split: if_split_asm)
  from assms st ne lt ch seen have a: "skip_blank lines i3 < length lines"
    unfolding parse_block_def Let_def by (auto split: if_split_asm)
  from assms st ne lt ch seen a obtain g where
    g: "answer_re (lines ! skip_blank lines i3) = Some g"
    unfolding parse_block_def Let_def by (auto split: option.split_asm)
  from assms st ne lt ch seen a g have
    "q = \<lparr>Question.stem_lines = stem, choices = chs, answer_letter = map upper g,
          start_line_no = s + 1\<rparr>" "e = skip_blank lines i3 + 1"
    unfolding parse_block_def Let_def by auto
  with that st ne lt ch seen a g show ?thesis by blast
qed

definition parsed_ok :: "string list \<Rightarrow> Question \<Rightarrow> bool" where
  "parsed_ok lines q =
     (Question.stem_lines q \<noteq> []
      \<and> strip (hd (Question.stem_lines q)) \<noteq> []
      \<and> list_all (\<lambda>s. choice_re s = None \<and> question_start_re s = None)
           (tl (Question.stem_lines q))
      \<and> list_all (\<lambda>s. list_ex (\<lambda>ln. set s \<subseteq> set ln) lines) (Question.stem_lines q)
      \<and> length (choices q) = 4 \<and> distinct (map fst (choices q))
      \<and> set (map fst (choices q)) = all_letters
      \<and> from_lines lines (choices q)
      \<and> answer_letter q \<in> all_letters)"

lemma nonspace_head_strip: "s \<noteq> [] \<Longrightarrow> \<not> is_space (hd s) \<Longrightarrow> strip s \<noteq> []"
proof -
  assume "s \<noteq> []" "\<not> is_space (hd s)"
  then have "\<exists>c \<in> set s. \<not> is_space c" by (metis hd_in_set)
  then show ?thesis by (simp add: strip_empty_iff)
qed

lemma parse_block_ok:
  assumes s: "s < length lines"
    and q0: "question_start_re (lines ! s) = Some (ds, fs)"
    and run: "parse_block lines s fs = Inr (q, e)"
  shows "parsed_ok lines q"
proof -
  let ?stem0 = "if fs \<noteq> [] then [fs] else []"
  let ?i1 = "skip_spacer lines ?stem0 (s + 1)"
  from run obtain i2 stem i3 chs g where
    st: "stem_loop lines (s + 1) ?i1 ?stem0 = Inr (i2, stem)" and
    ne: "stem \<noteq> []" and
    ch: "choice_loop lines (s + 1) i2 [] {} = Inr (i3, chs, all_letters)" and
    g: "answer_re (lines ! skip_blank lines i3) = Some g" and
    q: "q = \<lparr>Question.stem_lines = stem, choices = chs, answer_letter = map upper g,
          start_line_no = s + 1\<rparr>"
    by (rule parse_block_InrD)
  let ?new = "take (i2 - ?i1) (drop ?i1 lines)"
  from stem_loop_spec [OF st] have
    le: "?i1 \<le> i2" and stem: "stem = ?stem0 @ ?new" and
    plain: "\<forall>x \<in> set ?new. choice_re x = None \<and> question_start_re x = None"
    by simp_all
  from question_start_re_SomeD [OF q0] have
    fs: "fs = [] \<or> \<not> is_space (hd fs)" and fsub: "set fs \<subseteq> set (lines ! s)"
    by simp_all
  have new_lines: "set ?new \<subseteq> set lines"
    by (meson set_take_subset set_drop_subset subset_trans)
  have hd_ok: "strip (hd stem) \<noteq> []"
  proof (cases "fs = []")
    case False
    with fs stem show ?thesis by (simp add: nonspace_head_strip)
  next
    case True
    with stem ne have new: "?new \<noteq> []" "stem = ?new" by simp_all
    then have lt: "?i1 < length lines" by auto
    with new have "hd stem = lines ! ?i1"
      by (metis hd_drop_conv_nth hd_take length_greater_0_conv length_take min_less_iff_conj
          take_eq_Nil neq0_conv)
    moreover from True lt have "strip (lines ! ?i1) \<noteq> []"
      by (simp add: skip_spacer_stops)
    ultimately show ?thesis by simp
  qed
  have tl_ok: "list_all (\<lambda>x. choice_re x = None \<and> question_start_re x = None) (tl stem)"
  proof (cases "fs = []")
    case False
    with stem plain show ?thesis by (simp add: list_all_iff)
  next
    case True
    have "set (tl stem) \<subseteq> set stem" using ne by (auto dest: list.set_sel(2))
    moreover from True stem have "stem = ?new" by simp
    ultimately have "set (tl stem) \<subseteq> set ?new" by simp
    with plain show ?thesis by (auto simp: list_all_iff)
  qed
  have src: "list_all (\<lambda>x. list_ex (\<lambda>ln. set x \<subseteq> set ln) lines) stem"
  proof -
    have "list_ex (\<lambda>ln. set x \<subseteq> set ln) lines" if "x \<in> set stem" for x
    proof (cases "x \<in> set ?new")
      case True
      with new_lines have "x \<in> set lines" by blast
      then show ?thesis by (auto simp: list_ex_iff)
    next
      case False
      with that stem have "x = fs" by (auto split: if_split_asm)
      with fsub s show ?thesis by (auto simp: list_ex_iff intro: nth_mem)
    qed
    then show ?thesis by (simp add: list_all_iff)
  qed
  from choice_loop_from_start [OF ch] have
    seen: "all_letters = set (map fst chs)" and dist: "distinct (map fst chs)" and
    fl: "from_lines lines chs" and le4: "length chs \<le> 4"
    by simp_all
  have len: "length chs = 4"
  proof -
    from dist have "card (set (map fst chs)) = length chs" by (metis distinct_card length_map)
    with seen card_all_letters show ?thesis by simp
  qed
  from answer_re_SomeD [OF g] have ans: "map upper g \<in> all_letters" .
  from ne hd_ok tl_ok src len dist seen fl ans show ?thesis
    unfolding parsed_ok_def q by simp
qed

lemma parse_loop_blocks:
  "parse_loop lines i qs d = Inr (qs', d') \<Longrightarrow>
     \<exists>new. qs' = qs @ new
       \<and> (\<forall>q \<in> set new. \<exists>s ds fs e. s < length lines
             \<and> question_start_re (lines ! s) = Some (ds, fs)
             \<and> parse_block lines s fs = Inr (q, e))"
proof (induction lines i qs d rule: parse_loop.induct)
  case (1 lines i qs d)
  show ?case
  proof (cases "i < length lines")
    case False
    with "1.prems" have "qs' = qs" by (simp add: parse_loop.simps [of lines i qs d])
    then show ?thesis by simp
  next
    case True
    show ?thesis
    proof (cases "question_start_re (lines ! i)")
      case None
      with True "1.prems" have "parse_loop lines (i + 1) qs (d + 1) = Inr (qs', d')"
        by (simp add: parse_loop.simps [of lines i qs d])
      from "1.IH"(1) [OF True None this] show ?thesis .
    next
      case (Some m)
      obtain ds fs where m: "m = (ds, fs)" by (cases m)
      from Some m True "1.prems" obtain q e where
        b: "parse_block lines i fs = Inr (q, e)" and
        r: "parse_loop lines e (qs @ [q]) d = Inr (qs', d')"
        by (auto simp: parse_loop.simps [of lines i qs d] split: sum.split_asm)
      from "1.IH"(2) [OF True Some m [symmetric] b refl r] obtain new where
        new: "qs' = (qs @ [q]) @ new" and
        al: "\<forall>q \<in> set new. \<exists>s ds fs e. s < length lines
             \<and> question_start_re (lines ! s) = Some (ds, fs)
             \<and> parse_block lines s fs = Inr (q, e)"
        by blast
      have "\<forall>x \<in> set (q # new). \<exists>s ds fs e. s < length lines
             \<and> question_start_re (lines ! s) = Some (ds, fs)
             \<and> parse_block lines s fs = Inr (x, e)"
        using al True Some m b by auto
      with new show ?thesis by (intro exI [of _ "q # new"]) simp
    qed
  qed
qed

lemma parse_questions_ok:
  assumes "parse_questions lines = Inr (qs, d)"
  shows "\<forall>q \<in> set qs. parsed_ok lines q"
proof -
  from assms have "parse_loop lines 0 [] 0 = Inr (qs, d)" by (simp add: parse_questions_def)
  from parse_loop_blocks [OF this] have
    "\<forall>q \<in> set qs. \<exists>s ds fs e. s < length lines
        \<and> question_start_re (lines ! s) = Some (ds, fs)
        \<and> parse_block lines s fs = Inr (q, e)"
    by simp
  then show ?thesis by (blast intro: parse_block_ok)
qed

lemma parsed_ok_well_formed: "parsed_ok lines q \<Longrightarrow> well_formed q"
  by (simp add: parsed_ok_def well_formed_def)


text \<open>
  C10. Every question of a successful parse has a stem whose first line holds a character
  that is not whitespace; so the first line of its combined rendering is the number, a
  period, a space and a stem line that is not blank.
\<close>

theorem c10_first_stem_line_has_text:
  assumes "parse_questions lines = Inr (qs, d)"
  shows "\<forall>q \<in> set qs.
           Question.stem_lines q \<noteq> []
           \<and> (\<exists>c \<in> set (hd (Question.stem_lines q)). \<not> is_space c)
           \<and> (\<forall>n sq. stem_lines sq = Question.stem_lines q \<longrightarrow>
                 (\<exists>s0 rest. combined_block n sq = Inr ((str_nat n @ ''. '' @ s0) # rest)
                    \<and> strip s0 \<noteq> []))"
proof
  fix q assume "q \<in> set qs"
  with parse_questions_ok [OF assms] have "parsed_ok lines q" by blast
  then have ne: "Question.stem_lines q \<noteq> []" and
    st: "strip (hd (Question.stem_lines q)) \<noteq> []"
    by (simp_all add: parsed_ok_def)
  from st have c: "\<exists>c \<in> set (hd (Question.stem_lines q)). \<not> is_space c"
    by (simp add: strip_empty_iff)
  have "\<exists>s0 rest. combined_block n sq = Inr ((str_nat n @ ''. '' @ s0) # rest)
          \<and> strip s0 \<noteq> []" if "stem_lines sq = Question.stem_lines q" for n sq
  proof -
    from ne that have "stem_lines sq \<noteq> []" by simp
    then obtain s0 more where sq: "stem_lines sq = s0 # more"
      by (meson neq_Nil_conv)
    with that st have "strip s0 \<noteq> []" by (metis list.sel(1))
    with sq show ?thesis by (simp add: combined_block_def)
  qed
  with ne c show "Question.stem_lines q \<noteq> []
           \<and> (\<exists>c \<in> set (hd (Question.stem_lines q)). \<not> is_space c)
           \<and> (\<forall>n sq. stem_lines sq = Question.stem_lines q \<longrightarrow>
                 (\<exists>s0 rest. combined_block n sq = Inr ((str_nat n @ ''. '' @ s0) # rest)
                    \<and> strip s0 \<noteq> []))"
    by blast
qed

text \<open>
  C10 on an example: a bare numbering line, a blank spacer, then an indented stem line.
\<close>

theorem c10_example:
  "parse_questions [''1.'', [], ''  Q'', ''A. x'', ''B. y'', ''C. z'', ''D. w'', ''Answer: b'']
     = Inr ([\<lparr>Question.stem_lines = [''  Q''],
              choices = [(''A'', ''x''), (''B'', ''y''), (''C'', ''z''), (''D'', ''w'')],
              answer_letter = ''B'', start_line_no = 1\<rparr>], 0)
   \<and> (\<exists>c \<in> set ''  Q''. \<not> is_space c)"
proof -
  have r: "parse_questions
      [''1.'', [], ''  Q'', ''A. x'', ''B. y'', ''C. z'', ''D. w'', ''Answer: b'']
     = Inr ([\<lparr>Question.stem_lines = [''  Q''],
              choices = [(''A'', ''x''), (''B'', ''y''), (''C'', ''z''), (''D'', ''w'')],
              answer_letter = ''B'', start_line_no = 1\<rparr>], 0)"
    by code_simp
  from c10_first_stem_line_has_text [OF r] show ?thesis using r by simp
qed

section \<open>The discarded-line count\<close>

text \<open>
  The validated blocks of an input, as the main loop meets them: each block is the run of
  lines from a start line up to and including its Answer line, given by the index of its
  first line and the index after its last line.
\<close>

function block_extents :: "string list \<Rightarrow> nat \<Rightarrow> (nat \<times> nat) list" where
  "block_extents lines i =
     (if i < length lines
      then (case question_start_re (lines ! i) of
              None \<Rightarrow> block_extents lines (i + 1)
            | Some (ds, first_stem) \<Rightarrow>
                (case parse_block lines i first_stem of
                   Inl e \<Rightarrow> []
                 | Inr (q, i') \<Rightarrow> (i, i') # block_extents lines i'))
      else [])"
  by pat_completeness auto
termination
  by (relation "measure (\<lambda>(lines, i). length lines - i)") (auto dest: parse_block_gt)

declare block_extents.simps [simp del]

definition in_block :: "(nat \<times> nat) list \<Rightarrow> nat \<Rightarrow> bool" where
  "in_block ex k = list_ex (\<lambda>(s, e). s \<le> k \<and> k < e) ex"

text \<open>
  Following the specification's words: a line counts as discarded when it takes part in no
  validated block, except that a blank line lying between two blocks is structural
  whitespace and does not count.
\<close>

definition between_blocks :: "(nat \<times> nat) list \<Rightarrow> nat \<Rightarrow> bool" where
  "between_blocks ex k =
     (list_ex (\<lambda>(s, e). e \<le> k) ex \<and> list_ex (\<lambda>(s, e). k < s) ex)"

definition spec_discarded :: "string list \<Rightarrow> nat" where
  "spec_discarded lines =
     (let ex = block_extents lines 0
      in length (filter (\<lambda>k. \<not> in_block ex k
                             \<and> \<not> (strip (lines ! k) = [] \<and> between_blocks ex k))
                  [0..<length lines]))"

lemma parse_block_end:
  assumes "parse_block lines s fs = Inr (q, e)"
  shows "s < e \<and> e \<le> length lines \<and> answer_re (lines ! (e - 1)) \<noteq> None"
proof -
  from assms obtain i3 g where
    "skip_blank lines i3 < length lines"
    "answer_re (lines ! skip_blank lines i3) = Some g"
    "e = skip_blank lines i3 + 1"
    by (rule parse_block_InrD)
  with parse_block_gt [OF assms] show ?thesis by simp
qed

lemma block_extents_bounds:
  "(s, e) \<in> set (block_extents lines i) \<Longrightarrow>
     i \<le> s \<and> s < e \<and> e \<le> length lines
     \<and> question_start_re (lines ! s) \<noteq> None \<and> answer_re (lines ! (e - 1)) \<noteq> None"
proof (induction lines i rule: block_extents.induct)
  case (1 lines i)
  show ?case
  proof (cases "i < length lines")
    case False
    with "1.prems" show ?thesis by (simp add: block_extents.simps [of lines i])
  next
    case True
    show ?thesis
    proof (cases "question_start_re (lines ! i)")
      case None
      with True "1.prems" have "(s, e) \<in> set (block_extents lines (i + 1))"
        by (simp add: block_extents.simps [of lines i])
      from "1.IH"(1) [OF True None this] show ?thesis by simp
    next
      case (Some m)
      obtain ds fs where m: "m = (ds, fs)" by (cases m)
      show ?thesis
      proof (cases "parse_block lines i fs")
        case (Inl err)
        with True Some m "1.prems" show ?thesis
          by (simp add: block_extents.simps [of lines i])
      next
        case (Inr b)
        obtain q i' where b: "b = (q, i')" by (cases b)
        from True Some m Inr b "1.prems" have
          mem: "(s, e) = (i, i') \<or> (s, e) \<in> set (block_extents lines i')"
          by (simp add: block_extents.simps [of lines i])
        from Inr b have pb: "parse_block lines i fs = Inr (q, i')" by simp
        from mem show ?thesis
        proof
          assume "(s, e) = (i, i')"
          with parse_block_end [OF pb] Some show ?thesis by simp
        next
          assume "(s, e) \<in> set (block_extents lines i')"
          from "1.IH"(2) [OF True Some m [symmetric] pb refl this] parse_block_gt [OF pb]
          show ?thesis by simp
        qed
      qed
    qed
  qed
qed

lemma not_in_block_before:
  assumes "k < i"
  shows "\<not> in_block (block_extents lines i) k"
proof
  assume "in_block (block_extents lines i) k"
  then obtain s e where "(s, e) \<in> set (block_extents lines i)" "s \<le> k"
    by (auto simp: in_block_def list_ex_iff)
  with block_extents_bounds [of s e lines i] assms show False by simp
qed

lemma parse_loop_count:
  "parse_loop lines i qs d = Inr (qs', d') \<Longrightarrow>
     d' = d + length (filter (\<lambda>k. \<not> in_block (block_extents lines i) k) [i..<length lines])
     \<and> length qs' = length qs + length (block_extents lines i)"
proof (induction lines i qs d rule: parse_loop.induct)
  case (1 lines i qs d)
  show ?case
  proof (cases "i < length lines")
    case False
    with "1.prems" show ?thesis
      by (simp add: parse_loop.simps [of lines i qs d] block_extents.simps [of lines i])
  next
    case True
    then have upt: "[i..<length lines] = i # [i + 1..<length lines]"
      by (simp add: upt_conv_Cons)
    show ?thesis
    proof (cases "question_start_re (lines ! i)")
      case None
      with True "1.prems" have r: "parse_loop lines (i + 1) qs (d + 1) = Inr (qs', d')"
        by (simp add: parse_loop.simps [of lines i qs d])
      from True None have ex: "block_extents lines i = block_extents lines (i + 1)"
        by (simp add: block_extents.simps [of lines i])
      have "\<not> in_block (block_extents lines (i + 1)) i"
        by (rule not_in_block_before) simp
      with "1.IH"(1) [OF True None r] show ?thesis unfolding ex upt by simp
    next
      case (Some m)
      obtain ds fs where m: "m = (ds, fs)" by (cases m)
      from Some m True "1.prems" obtain q e where
        b: "parse_block lines i fs = Inr (q, e)" and
        r: "parse_loop lines e (qs @ [q]) d = Inr (qs', d')"
        by (auto simp: parse_loop.simps [of lines i qs d] split: sum.split_asm)
      from True Some m b have ex: "block_extents lines i = (i, e) # block_extents lines e"
        by (simp add: block_extents.simps [of lines i])
      from parse_block_end [OF b] have ie: "i < e" "e \<le> length lines" by simp_all
      then have split: "[i..<length lines] = [i..<e] @ [e..<length lines]"
        by (metis le_add_diff_inverse less_imp_le_nat upt_add_eq_append)
      have first: "filter (\<lambda>k. \<not> in_block ((i, e) # block_extents lines e) k) [i..<e] = []"
        by (auto simp: in_block_def filter_empty_conv)
      have second: "filter (\<lambda>k. \<not> in_block ((i, e) # block_extents lines e) k) [e..<length lines]
          = filter (\<lambda>k. \<not> in_block (block_extents lines e) k) [e..<length lines]"
        by (rule filter_cong) (auto simp: in_block_def)
      from "1.IH"(2) [OF True Some m [symmetric] b refl r] show ?thesis
        unfolding ex split by (simp add: first second)
    qed
  qed
qed


text \<open>
  C4 (as the code behaves). After a successful parse the discarded-line count is the
  number of lines that lie in no validated block, a block being the lines from a start
  line through its Answer line; the blocks are as many as the questions, and each begins
  at a line matching the start pattern and ends with a line matching the Answer pattern.
  Every line outside the blocks is counted, a blank line between two blocks included.
\<close>

theorem c4_discarded_outside_blocks:
  assumes "parse_questions lines = Inr (qs, d)"
  shows "d = length (filter (\<lambda>k. \<not> in_block (block_extents lines 0) k) [0..<length lines])
         \<and> length (block_extents lines 0) = length qs
         \<and> (\<forall>(s, e) \<in> set (block_extents lines 0).
               s < e \<and> e \<le> length lines \<and> question_start_re (lines ! s) \<noteq> None
               \<and> answer_re (lines ! (e - 1)) \<noteq> None)"
proof -
  from assms have "parse_loop lines 0 [] 0 = Inr (qs, d)" by (simp add: parse_questions_def)
  from parse_loop_count [OF this] have
    "d = length (filter (\<lambda>k. \<not> in_block (block_extents lines 0) k) [0..<length lines])"
    "length (block_extents lines 0) = length qs"
    by simp_all
  moreover have "\<forall>(s, e) \<in> set (block_extents lines 0).
               s < e \<and> e \<le> length lines \<and> question_start_re (lines ! s) \<noteq> None
               \<and> answer_re (lines ! (e - 1)) \<noteq> None"
    using block_extents_bounds [of _ _ lines 0] by blast
  ultimately show ?thesis by blast
qed

text \<open>
  C4 on an example: one stray line before a block. The block is lines 2 to 7, and the
  stray line is the one line counted.
\<close>

theorem c4_example:
  "map_sum id snd
     (parse_questions [''garbage'', ''1. Q'', ''A. x'', ''B. y'', ''C. z'', ''D. w'', ''Answer: B''])
     = Inr 1
   \<and> block_extents [''garbage'', ''1. Q'', ''A. x'', ''B. y'', ''C. z'', ''D. w'', ''Answer: B''] 0
       = [(1, 7)]"
proof -
  let ?L = "[''garbage'', ''1. Q'', ''A. x'', ''B. y'', ''C. z'', ''D. w'', ''Answer: B'']"
  have r: "parse_questions ?L
     = Inr ([\<lparr>Question.stem_lines = [''Q''],
              choices = [(''A'', ''x''), (''B'', ''y''), (''C'', ''z''), (''D'', ''w'')],
              answer_letter = ''B'', start_line_no = 2\<rparr>], 1)"
    by code_simp
  have ex: "block_extents ?L 0 = [(1, 7)]" by code_simp
  from c4_discarded_outside_blocks [OF r] have
    "(1::nat) = length (filter (\<lambda>k. \<not> in_block (block_extents ?L 0) k) [0..<length ?L])"
    by blast
  with r ex show ?thesis by simp
qed

text \<open>
  C4 as the specification states it does not hold. In the input below two blocks (lines 1
  to 6 and lines 8 to 13) are separated by one blank line; every other line belongs to a
  block, so the specification's count is 0, but the parser returns 1: the blank line
  between the blocks is counted as discarded.
\<close>

theorem c4_blank_between_blocks_is_counted:
  "map_sum id snd
     (parse_questions
        [''1. Q'', ''A. x'', ''B. y'', ''C. z'', ''D. w'', ''Answer: A'', [],
         ''2. R'', ''A. x'', ''B. y'', ''C. z'', ''D. w'', ''Answer: B'']) = Inr 1
   \<and> spec_discarded
        [''1. Q'', ''A. x'', ''B. y'', ''C. z'', ''D. w'', ''Answer: A'', [],
         ''2. R'', ''A. x'', ''B. y'', ''C. z'', ''D. w'', ''Answer: B''] = 0
   \<and> block_extents
        [''1. Q'', ''A. x'', ''B. y'', ''C. z'', ''D. w'', ''Answer: A'', [],
         ''2. R'', ''A. x'', ''B. y'', ''C. z'', ''D. w'', ''Answer: B''] 0 = [(0, 6), (7, 13)]"
  by code_simp

section \<open>Rendering and parsing again\<close>

definition clean :: "string \<Rightarrow> bool" where
  "clean s = list_all (\<lambda>c. \<not> is_linebreak c) s"

lemma clean_simps [simp]:
  "clean []" "clean (c # s) \<longleftrightarrow> \<not> is_linebreak c \<and> clean s"
  "clean (s @ t) \<longleftrightarrow> clean s \<and> clean t"
  by (auto simp: clean_def)

lemma clean_subset: "clean ln \<Longrightarrow> set s \<subseteq> set ln \<Longrightarrow> clean s"
  by (auto simp: clean_def list_all_iff)

lemma clean_no_newline: "clean s \<Longrightarrow> newline \<notin> set s"
  by (auto simp: clean_def list_all_iff is_linebreak_def newline_def)

lemma is_digit_facts:
  "is_digit c \<Longrightarrow> \<not> is_space c \<and> \<not> is_linebreak c \<and> c \<noteq> CHR ''.''"
  by (auto simp: is_digit_def is_space_def is_linebreak_def)

lemma str_nat_digits: "str_nat n \<noteq> [] \<and> list_all is_digit (str_nat n)"
proof (induction n rule: str_nat.induct)
  case (1 n)
  show ?case
  proof (cases "n < 10")
    case True
    then show ?thesis by (simp add: str_nat.simps [of n] digit_char_is_digit)
  next
    case False
    with 1 have "list_all is_digit (str_nat (n div 10))" by simp
    moreover have "is_digit (digit_char (n mod 10))" by (simp add: digit_char_is_digit)
    ultimately show ?thesis using False by (simp add: str_nat.simps [of n])
  qed
qed

lemma clean_str_nat: "clean (str_nat n)"
  using str_nat_digits [of n] by (auto simp: clean_def list_all_iff is_digit_facts)

lemma dot_tail_clean: "clean s \<Longrightarrow> dot_tail s = Some s"
proof -
  assume "clean s"
  then have "newline \<notin> set s" by (rule clean_no_newline)
  then have "takeWhile (\<lambda>c. c \<noteq> newline) s = s" "dropWhile (\<lambda>c. c \<noteq> newline) s = []"
    by (auto simp: takeWhile_eq_all_conv)
  then show ?thesis by (simp add: dot_tail_def)
qed

lemma lstrip_clean: "clean s \<Longrightarrow> clean (lstrip s)"
  unfolding lstrip_def by (rule clean_subset) (auto dest: set_dropWhileD)

lemma lstrip_nonblank: "strip s \<noteq> [] \<Longrightarrow> lstrip s \<noteq> []"
  by (simp add: strip_empty_iff lstrip_def)

lemma first_line_matches:
  assumes "clean s0"
  shows "question_start_re (str_nat n @ ''. '' @ s0) = Some (str_nat n, lstrip s0)"
proof -
  let ?line = "str_nat n @ ''. '' @ s0"
  from str_nat_digits [of n] have ne: "str_nat n \<noteq> []" and dg: "list_all is_digit (str_nat n)"
    by simp_all
  from ne dg have "\<not> is_space (hd ?line)"
    by (cases "str_nat n") (simp_all add: is_digit_facts)
  with ne have r1: "dropWhile is_space ?line = ?line" by (cases "str_nat n") simp_all
  have nd: "\<not> is_digit (CHR ''.'')" by (simp add: is_digit_def)
  from dg have ds: "takeWhile is_digit ?line = str_nat n"
    by (simp add: takeWhile_append2 list_all_iff nd)
  from dg have r2: "dropWhile is_digit ?line = ''. '' @ s0"
    by (simp add: dropWhile_append2 list_all_iff nd)
  have sp: "is_space (CHR '' '')" by (simp add: is_space_def)
  have "dot_tail (lstrip s0) = Some (lstrip s0)"
    using assms by (intro dot_tail_clean lstrip_clean)
  then show ?thesis
    unfolding question_start_re_def Let_def r1 ds r2 using ne sp by (simp add: lstrip_def)
qed

lemma letter_char_facts:
  "c \<in> set ''ABCD'' \<Longrightarrow> \<not> is_space c \<and> \<not> is_linebreak c"
  by (auto simp: is_space_def is_linebreak_def)

definition text_ok :: "string \<Rightarrow> bool" where
  "text_ok t = (clean t \<and> (t = [] \<or> \<not> is_space (hd t)))"

lemma choice_line_matches:
  assumes "text_ok t" "c \<in> set ''ABCD''"
  shows "choice_re (c # ''. '' @ t) = Some ([c], t)"
proof -
  from assms(2) have r1: "dropWhile is_space (c # ''. '' @ t) = c # ''. '' @ t"
    by (simp add: letter_char_facts)
  have sp: "is_space (CHR '' '')" by (simp add: is_space_def)
  from assms(1) have "dropWhile is_space t = t" by (cases t) (simp_all add: text_ok_def)
  with sp have r3: "dropWhile is_space ('' '' @ t) = t" by simp
  from assms(1) have "dot_tail t = Some t" by (simp add: dot_tail_clean text_ok_def)
  with assms(2) r3 sp show ?thesis unfolding choice_re_def r1 by simp
qed

lemma choice_line_not_blank: "c \<in> set ''ABCD'' \<Longrightarrow> strip (c # ''. '' @ t) \<noteq> []"
  by (auto simp: strip_empty_iff letter_char_facts)

lemma answer_line_matches:
  assumes "l \<in> all_letters"
  shows "answer_re (''Answer: '' @ l) = Some l \<and> map upper l = l
         \<and> strip (''Answer: '' @ l) \<noteq> [] \<and> clean (''Answer: '' @ l)"
proof -
  from assms consider "l = ''A''" | "l = ''B''" | "l = ''C''" | "l = ''D''"
    by (auto simp: all_letters_def)
  then show ?thesis
  proof cases
    case 1 then show ?thesis by (simp add: clean_def) code_simp
  next
    case 2 then show ?thesis by (simp add: clean_def) code_simp
  next
    case 3 then show ?thesis by (simp add: clean_def) code_simp
  next
    case 4 then show ?thesis by (simp add: clean_def) code_simp
  qed
qed


subsection \<open>The loops on rendered lines\<close>

lemma drop_ConsD:
  assumes "drop i xs = y # ys"
  shows "i < length xs \<and> xs ! i = y \<and> drop (Suc i) xs = ys"
proof -
  from assms have lt: "i < length xs" by (cases "i < length xs") simp_all
  from Cons_nth_drop_Suc [OF lt] assms show ?thesis using lt by simp
qed

lemma drop_appendD:
  assumes "drop i xs = ys @ zs"
  shows "drop (i + length ys) xs = zs"
proof -
  have "drop (i + length ys) xs = drop (length ys) (drop i xs)"
    by (simp add: add.commute)
  also have "\<dots> = zs" unfolding assms by simp
  finally show ?thesis .
qed

lemma stem_loop_forward:
  assumes "drop i lines = xs @ c # rest"
    and "\<forall>x \<in> set xs. choice_re x = None \<and> question_start_re x = None"
    and "choice_re c \<noteq> None"
  shows "stem_loop lines start i acc = Inr (i + length xs, acc @ xs)"
  using assms
proof (induction xs arbitrary: i acc)
  case Nil
  then have "drop i lines = c # rest" by simp
  from drop_ConsD [OF this] Nil.prems(3) show ?case
    by (auto simp: stem_loop.simps [of lines start i acc])
next
  case (Cons x xs)
  then have "drop i lines = x # (xs @ c # rest)" by simp
  from drop_ConsD [OF this] have
    i: "i < length lines" "lines ! i = x" and d: "drop (Suc i) lines = xs @ c # rest"
    by simp_all
  from Cons.prems(2) have x: "choice_re x = None" "question_start_re x = None" and
    xs: "\<forall>x \<in> set xs. choice_re x = None \<and> question_start_re x = None"
    by simp_all
  from i x have "stem_loop lines start i acc = stem_loop lines start (Suc i) (acc @ [x])"
    by (simp add: stem_loop.simps [of lines start i acc])
  also from Cons.IH [OF d xs Cons.prems(3)] have
    "\<dots> = Inr (Suc i + length xs, (acc @ [x]) @ xs)" .
  finally show ?case by simp
qed

lemma choice_loop_step:
  assumes "drop i lines = (c # ''. '' @ t) # rest" "c \<in> set ''ABCD''" "text_ok t"
    and "length chs < 4" "[c] \<notin> seen"
  shows "choice_loop lines start i chs seen
           = choice_loop lines start (Suc i) (chs @ [([c], t)]) (insert [c] seen)"
proof -
  from drop_ConsD [OF assms(1)] have i: "i < length lines" "lines ! i = c # ''. '' @ t"
    by simp_all
  from choice_line_matches [OF assms(3,2)] choice_line_not_blank [OF assms(2)] i assms(4,5)
  show ?thesis by (simp add: choice_loop.simps [of lines start i chs seen])
qed

lemma choice_loop_forward:
  assumes d: "drop i lines = (CHR ''A'' # ''. '' @ t0) # (CHR ''B'' # ''. '' @ t1)
                  # (CHR ''C'' # ''. '' @ t2) # (CHR ''D'' # ''. '' @ t3) # rest"
    and t: "text_ok t0" "text_ok t1" "text_ok t2" "text_ok t3"
  shows "choice_loop lines start i [] {}
           = Inr (i + 4, [(''A'', t0), (''B'', t1), (''C'', t2), (''D'', t3)], all_letters)"
proof -
  from drop_ConsD [OF d] have d1: "drop (Suc i) lines = (CHR ''B'' # ''. '' @ t1)
                  # (CHR ''C'' # ''. '' @ t2) # (CHR ''D'' # ''. '' @ t3) # rest" by simp
  from drop_ConsD [OF d1] have d2: "drop (Suc (Suc i)) lines =
                  (CHR ''C'' # ''. '' @ t2) # (CHR ''D'' # ''. '' @ t3) # rest" by simp
  from drop_ConsD [OF d2] have d3: "drop (Suc (Suc (Suc i))) lines =
                  (CHR ''D'' # ''. '' @ t3) # rest" by simp
  have "choice_loop lines start i [] {}
      = choice_loop lines start (Suc i) ([] @ [(''A'', t0)]) (insert ''A'' {})"
    using d t(1) by (intro choice_loop_step) simp_all
  also have "\<dots> = choice_loop lines start (Suc (Suc i)) ([(''A'', t0)] @ [(''B'', t1)])
                      (insert ''B'' {''A''})"
    using d1 t(2) choice_loop_step [of "Suc i" lines "CHR ''B''" t1 _ "[(''A'', t0)]" "{''A''}"]
    by simp
  also have "\<dots> = choice_loop lines start (Suc (Suc (Suc i)))
                      ([(''A'', t0), (''B'', t1)] @ [(''C'', t2)]) (insert ''C'' {''B'', ''A''})"
    using d2 t(3)
      choice_loop_step [of "Suc (Suc i)" lines "CHR ''C''" t2 _ "[(''A'', t0), (''B'', t1)]"
        "{''B'', ''A''}"]
    by simp
  also have "\<dots> = choice_loop lines start (Suc (Suc (Suc (Suc i))))
                      ([(''A'', t0), (''B'', t1), (''C'', t2)] @ [(''D'', t3)])
                      (insert ''D'' {''C'', ''B'', ''A''})"
    using d3 t(4)
      choice_loop_step [of "Suc (Suc (Suc i))" lines "CHR ''D''" t3 _
        "[(''A'', t0), (''B'', t1), (''C'', t2)]" "{''C'', ''B'', ''A''}"]
    by simp
  also have "\<dots> = Inr (Suc (Suc (Suc (Suc i))),
                      [(''A'', t0), (''B'', t1), (''C'', t2), (''D'', t3)],
                      {''D'', ''C'', ''B'', ''A''})"
    by (simp add: choice_loop.simps
          [of lines start "Suc (Suc (Suc (Suc i)))" "[(''A'', t0), (''B'', t1), (''C'', t2), (''D'', t3)]"])
  also have "{''D'', ''C'', ''B'', ''A''} = all_letters"
    by (auto simp: all_letters_def)
  finally show ?thesis by simp
qed

lemma skip_blank_forward:
  assumes "drop i lines = [] # x # rest" "strip x \<noteq> []"
  shows "skip_blank lines i = Suc i"
proof -
  from drop_ConsD [OF assms(1)] have
    i: "i < length lines" "lines ! i = []" and d: "drop (Suc i) lines = x # rest"
    by simp_all
  from drop_ConsD [OF d] have j: "Suc i < length lines" "lines ! Suc i = x" by simp_all
  from i have "skip_blank lines i = skip_blank lines (Suc i)"
    by (simp add: skip_blank.simps [of lines i] strip_def)
  also from j assms(2) have "\<dots> = Suc i"
    by (simp add: skip_blank.simps [of lines "Suc i"])
  finally show ?thesis .
qed


subsection \<open>One rendered block\<close>

text \<open>
  The lines \<open>format_combined\<close> writes for one question, without the blank line that closes
  the block; what the parser needs of a shuffled question to read these lines back; and
  the question it reads.
\<close>

definition block_body :: "nat \<Rightarrow> ShuffledQuestion \<Rightarrow> string list" where
  "block_body n sq =
     (str_nat n @ ''. '' @ hd (stem_lines sq)) # tl (stem_lines sq)
       @ choice_lines (shuffled_choices sq) @ [[], ''Answer: '' @ new_answer_letter sq]"

definition render_ok :: "ShuffledQuestion \<Rightarrow> bool" where
  "render_ok sq =
     (stem_lines sq \<noteq> [] \<and> strip (hd (stem_lines sq)) \<noteq> []
      \<and> list_all clean (stem_lines sq)
      \<and> list_all (\<lambda>s. choice_re s = None \<and> question_start_re s = None) (tl (stem_lines sq))
      \<and> length (shuffled_choices sq) = 4 \<and> list_all text_ok (shuffled_choices sq)
      \<and> new_answer_letter sq \<in> all_letters)"

definition reparsed :: "nat \<Rightarrow> ShuffledQuestion \<Rightarrow> Question" where
  "reparsed start sq =
     \<lparr>Question.stem_lines = lstrip (hd (stem_lines sq)) # tl (stem_lines sq),
      choices = zip [''A'', ''B'', ''C'', ''D''] (shuffled_choices sq),
      answer_letter = new_answer_letter sq, start_line_no = start\<rparr>"

lemma length4E:
  assumes "length xs = 4"
  obtains a b c d where "xs = [a, b, c, d]"
  using assms by (auto simp: numeral_eq_Suc length_Suc_conv)

lemma block_parses:
  assumes ok: "render_ok sq" and d: "drop i lines = block_body n sq @ rest"
  shows "question_start_re (lines ! i) = Some (str_nat n, lstrip (hd (stem_lines sq)))
         \<and> parse_block lines i (lstrip (hd (stem_lines sq)))
             = Inr (reparsed (i + 1) sq, i + length (block_body n sq))"
proof -
  from ok obtain s0 more where stem: "stem_lines sq = s0 # more"
    unfolding render_ok_def by (meson neq_Nil_conv)
  from ok obtain t0 t1 t2 t3 where ts: "shuffled_choices sq = [t0, t1, t2, t3]"
    unfolding render_ok_def by (meson length4E)
  from ok stem ts have
    s0: "clean s0" "strip s0 \<noteq> []" and
    plain: "\<forall>x \<in> set more. choice_re x = None \<and> question_start_re x = None" and
    t: "text_ok t0" "text_ok t1" "text_ok t2" "text_ok t3" and
    l: "new_answer_letter sq \<in> all_letters"
    by (simp_all add: render_ok_def list_all_iff)
  let ?first = "str_nat n @ ''. '' @ s0"
  let ?ans = "''Answer: '' @ new_answer_letter sq"
  let ?cs = "(CHR ''A'' # ''. '' @ t0) # (CHR ''B'' # ''. '' @ t1)
               # (CHR ''C'' # ''. '' @ t2) # (CHR ''D'' # ''. '' @ t3) # [] # ?ans # rest"
  let ?fs = "lstrip s0"
  have body: "block_body n sq = ?first # more
      @ [CHR ''A'' # ''. '' @ t0, CHR ''B'' # ''. '' @ t1, CHR ''C'' # ''. '' @ t2,
         CHR ''D'' # ''. '' @ t3, [], ?ans]"
    by (simp add: block_body_def stem ts choice_lines_def)
  from d have d0: "drop i lines = ?first # (more @ ?cs)" unfolding body by simp
  from drop_ConsD [OF d0] have
    i: "i < length lines" "lines ! i = ?first" and d1: "drop (Suc i) lines = more @ ?cs"
    by simp_all
  have q: "question_start_re (lines ! i) = Some (str_nat n, ?fs)"
    unfolding i(2) using s0(1) by (rule first_line_matches)
  have fs: "?fs \<noteq> []" using s0(2) by (rule lstrip_nonblank)
  have cA: "choice_re (CHR ''A'' # ''. '' @ t0) \<noteq> None"
    using choice_line_matches [OF t(1), of "CHR ''A''"] by simp
  define i2 where "i2 = Suc i + length more"
  define i3 where "i3 = i2 + 4"
  have st: "stem_loop lines (i + 1) (Suc i) [?fs] = Inr (i2, [?fs] @ more)"
    unfolding i2_def using d1 plain cA by (rule stem_loop_forward)
  from drop_appendD [OF d1] have d2: "drop i2 lines = ?cs" unfolding i2_def .
  from drop_ConsD [OF d2] have i2: "i2 < length lines" by simp
  have ch: "choice_loop lines (i + 1) i2 [] {}
      = Inr (i3, [(''A'', t0), (''B'', t1), (''C'', t2), (''D'', t3)], all_letters)"
    unfolding i3_def using d2 t by (rule choice_loop_forward)
  let ?four = "[CHR ''A'' # ''. '' @ t0, CHR ''B'' # ''. '' @ t1,
      CHR ''C'' # ''. '' @ t2, CHR ''D'' # ''. '' @ t3]"
  have "drop i2 lines = ?four @ ([] # ?ans # rest)" using d2 by simp
  from drop_appendD [OF this] have "drop (i2 + length ?four) lines = [] # ?ans # rest" .
  moreover have "i2 + length ?four = i3" by (simp add: i3_def)
  ultimately have d3: "drop i3 lines = [] # ?ans # rest" by simp
  from answer_line_matches [OF l] have
    a: "answer_re ?ans = Some (new_answer_letter sq)"
       "map upper (new_answer_letter sq) = new_answer_letter sq" "strip ?ans \<noteq> []"
    by simp_all
  have sb: "skip_blank lines i3 = Suc i3"
    using d3 a(3) by (rule skip_blank_forward)
  from drop_ConsD [OF d3] have "drop (Suc i3) lines = ?ans # rest" by simp
  from drop_ConsD [OF this] have
    i4: "Suc i3 < length lines" "lines ! Suc i3 = ?ans"
    by simp_all
  have len: "i + length (block_body n sq) = Suc i3 + 1"
    unfolding body by (simp add: i3_def i2_def)
  have "parse_block lines i ?fs = Inr (reparsed (i + 1) sq, i + length (block_body n sq))"
    unfolding parse_block_def Let_def len
    using fs st i2 ch sb i4 a(1,2)
    by (simp add: skip_spacer_nonempty reparsed_def stem ts)
  with q stem show ?thesis by simp
qed


subsection \<open>The rendered text as lines\<close>

text \<open>
  The lines of the combined text as \<open>splitlines\<close> returns them: the blocks, a blank line
  between two blocks, none after the last.
\<close>

fun combined_text_lines :: "nat \<Rightarrow> ShuffledQuestion list \<Rightarrow> string list" where
  "combined_text_lines n [] = []"
| "combined_text_lines n [sq] = block_body n sq"
| "combined_text_lines n (sq # sq' # sqs) =
     block_body n sq @ [] # combined_text_lines (n + 1) (sq' # sqs)"

lemma combined_block_body:
  "stem_lines sq \<noteq> [] \<Longrightarrow> combined_block n sq = Inr (block_body n sq @ [[]])"
  by (cases "stem_lines sq") (simp_all add: combined_block_def block_body_def)

lemma combined_lines_eq:
  assumes "list_all render_ok sqs" "sqs \<noteq> []"
  shows "combined_lines n sqs = Inr (combined_text_lines n sqs @ [[]])"
  using assms
proof (induction n sqs rule: combined_text_lines.induct)
  case (1 n)
  then show ?case by simp
next
  case (2 n sq)
  then have "stem_lines sq \<noteq> []" by (simp add: render_ok_def)
  then show ?case by (simp add: combined_block_body)
next
  case (3 n sq sq' sqs)
  then have "stem_lines sq \<noteq> []" by (simp add: render_ok_def)
  moreover from 3 have "combined_lines (n + 1) (sq' # sqs)
      = Inr (combined_text_lines (n + 1) (sq' # sqs) @ [[]])"
    by simp
  ultimately show ?case by (simp add: combined_block_body)
qed

lemma splitlines_join:
  assumes "list_all clean xs"
  shows "splitlines (join_nl (xs @ [[]])) = xs"
  using assms
proof (induction xs)
  case Nil
  show ?case by (simp add: splitlines.simps [of "[]"])
next
  case (Cons x xs)
  then have x: "clean x" and ih: "splitlines (join_nl (xs @ [[]])) = xs" by simp_all
  obtain y ys where ys: "xs @ [[]] = y # ys" by (cases "xs @ [[]]") simp_all
  let ?r = "join_nl (xs @ [[]])"
  have j: "join_nl ((x # xs) @ [[]]) = x @ newline # ?r"
    using ys by simp
  have nl: "is_linebreak newline" by (simp add: is_linebreak_def newline_def)
  from x have all: "\<forall>c \<in> set x. \<not> is_linebreak c" by (simp add: clean_def list_all_iff)
  have tw: "takeWhile (\<lambda>c. \<not> is_linebreak c) (x @ newline # ?r) = x"
    using all nl by (simp add: takeWhile_append2)
  have dw: "dropWhile (\<lambda>c. \<not> is_linebreak c) (x @ newline # ?r) = newline # ?r"
    using all nl by (simp add: dropWhile_append2)
  have cr: "newline \<noteq> CHR 0x0D" by (simp add: newline_def)
  have "splitlines (x @ newline # ?r) = x # splitlines ?r"
    by (subst splitlines.simps) (simp add: tw dw cr)
  with j ih show ?case by simp
qed

definition reads_back :: "ShuffledQuestion \<Rightarrow> Question \<Rightarrow> bool" where
  "reads_back sq q' =
     (Question.stem_lines q' = lstrip (hd (stem_lines sq)) # tl (stem_lines sq)
      \<and> map snd (choices q') = shuffled_choices sq)"

lemma reads_back_reparsed: "length (shuffled_choices sq) = 4 \<Longrightarrow> reads_back sq (reparsed k sq)"
  by (erule length4E) (simp add: reads_back_def reparsed_def)

lemma parse_rendered:
  assumes "list_all render_ok sqs" "drop i lines = combined_text_lines n sqs"
  shows "\<exists>qs' d'. parse_loop lines i acc d = Inr (acc @ qs', d') \<and> list_all2 reads_back sqs qs'"
  using assms
proof (induction n sqs arbitrary: i acc d rule: combined_text_lines.induct)
  case (1 n)
  then have "\<not> i < length lines" by simp
  then show ?case by (simp add: parse_loop.simps [of lines i acc d])
next
  case (2 n sq)
  then have ok: "render_ok sq" and d: "drop i lines = block_body n sq @ []" by simp_all
  let ?fs = "lstrip (hd (stem_lines sq))"
  let ?e = "i + length (block_body n sq)"
  from block_parses [OF ok d] have
    q: "question_start_re (lines ! i) = Some (str_nat n, ?fs)" and
    b: "parse_block lines i ?fs = Inr (reparsed (i + 1) sq, ?e)"
    by simp_all
  from parse_block_end [OF b] have "i < ?e" "?e \<le> length lines" by blast+
  then have lt: "i < length lines" by (rule less_le_trans)
  from d have "length lines - i = length (block_body n sq)" by (metis append_Nil2 length_drop)
  with lt have e: "\<not> ?e < length lines" by simp
  from lt q b have "parse_loop lines i acc d = parse_loop lines ?e (acc @ [reparsed (i + 1) sq]) d"
    by (simp add: parse_loop.simps [of lines i acc d])
  also from e have "\<dots> = Inr (acc @ [reparsed (i + 1) sq], d)"
    by (simp add: parse_loop.simps [of lines ?e])
  finally have "parse_loop lines i acc d = Inr (acc @ [reparsed (i + 1) sq], d)" .
  moreover from ok have "reads_back sq (reparsed (i + 1) sq)"
    by (simp add: reads_back_reparsed render_ok_def)
  ultimately show ?case by simp
next
  case (3 n sq sq' sqs)
  then have ok: "render_ok sq" and oks: "list_all render_ok (sq' # sqs)" and
    d: "drop i lines = block_body n sq @ ([] # combined_text_lines (n + 1) (sq' # sqs))"
    by simp_all
  let ?fs = "lstrip (hd (stem_lines sq))"
  let ?e = "i + length (block_body n sq)"
  from block_parses [OF ok d] have
    q: "question_start_re (lines ! i) = Some (str_nat n, ?fs)" and
    b: "parse_block lines i ?fs = Inr (reparsed (i + 1) sq, ?e)"
    by simp_all
  from parse_block_end [OF b] have "i < ?e" "?e \<le> length lines" by blast+
  then have lt: "i < length lines" by (rule less_le_trans)
  from drop_appendD [OF d] have
    de: "drop ?e lines = [] # combined_text_lines (n + 1) (sq' # sqs)" .
  from drop_ConsD [OF de] have
    e: "?e < length lines" "lines ! ?e = []" and
    dn: "drop (Suc ?e) lines = combined_text_lines (n + 1) (sq' # sqs)"
    by simp_all
  have blank: "question_start_re [] = None" by (simp add: question_start_re_def)
  from "3.IH" [OF oks dn, of "acc @ [reparsed (i + 1) sq]" "d + 1"] obtain qs' d' where
    r: "parse_loop lines (Suc ?e) (acc @ [reparsed (i + 1) sq]) (d + 1)
          = Inr ((acc @ [reparsed (i + 1) sq]) @ qs', d')" and
    rb: "list_all2 reads_back (sq' # sqs) qs'"
    by blast
  from lt q b have "parse_loop lines i acc d = parse_loop lines ?e (acc @ [reparsed (i + 1) sq]) d"
    by (simp add: parse_loop.simps [of lines i acc d])
  also from e blank have "\<dots> = parse_loop lines (Suc ?e) (acc @ [reparsed (i + 1) sq]) (d + 1)"
    by (simp add: parse_loop.simps [of lines ?e])
  also note r
  finally have "parse_loop lines i acc d = Inr (acc @ (reparsed (i + 1) sq # qs'), d')" by simp
  moreover from ok have "reads_back sq (reparsed (i + 1) sq)"
    by (simp add: reads_back_reparsed render_ok_def)
  ultimately show ?case using rb by (intro exI [of _ "reparsed (i + 1) sq # qs'"] exI [of _ d']) simp
qed


subsection \<open>The round trip\<close>

lemma block_body_clean:
  assumes "render_ok sq"
  shows "list_all clean (block_body n sq)"
proof -
  from assms obtain s0 more where stem: "stem_lines sq = s0 # more"
    unfolding render_ok_def by (meson neq_Nil_conv)
  from assms obtain t0 t1 t2 t3 where ts: "shuffled_choices sq = [t0, t1, t2, t3]"
    unfolding render_ok_def by (meson length4E)
  from assms stem ts have "clean s0" "list_all clean more"
    "clean t0" "clean t1" "clean t2" "clean t3" "new_answer_letter sq \<in> all_letters"
    by (simp_all add: render_ok_def text_ok_def)
  moreover have "\<not> is_linebreak c" if "c \<in> set ''ABCD. ''" for c
    using that by (auto simp: is_linebreak_def)
  ultimately show ?thesis
    using answer_line_matches [of "new_answer_letter sq"] clean_str_nat [of n]
    by (simp add: block_body_def stem ts choice_lines_def)
qed

lemma combined_text_lines_clean:
  "list_all render_ok sqs \<Longrightarrow> list_all clean (combined_text_lines n sqs)"
  by (induction n sqs rule: combined_text_lines.induct) (simp_all add: block_body_clean)

lemma parsed_ok_render_ok:
  assumes p: "parsed_ok lines q" and cl: "list_all clean lines"
    and st: "stem_lines sq = Question.stem_lines q"
    and ms: "mset (shuffled_choices sq) = mset (map snd (choices q))"
    and l: "new_answer_letter sq \<in> all_letters"
  shows "render_ok sq"
proof -
  from p have ne: "Question.stem_lines q \<noteq> []" and
    hd: "strip (hd (Question.stem_lines q)) \<noteq> []" and
    plain: "list_all (\<lambda>s. choice_re s = None \<and> question_start_re s = None)
              (tl (Question.stem_lines q))" and
    src: "list_all (\<lambda>s. list_ex (\<lambda>ln. set s \<subseteq> set ln) lines) (Question.stem_lines q)" and
    len: "length (choices q) = 4" and fl: "from_lines lines (choices q)"
    by (simp_all add: parsed_ok_def)
  have stems: "list_all clean (Question.stem_lines q)"
  proof -
    have "clean x" if "x \<in> set (Question.stem_lines q)" for x
    proof -
      from src that obtain ln where "ln \<in> set lines" "set x \<subseteq> set ln"
        by (auto simp: list_all_iff list_ex_iff)
      with cl show ?thesis by (auto simp: list_all_iff intro: clean_subset)
    qed
    then show ?thesis by (simp add: list_all_iff)
  qed
  from ms have "length (shuffled_choices sq) = length (map snd (choices q))"
    by (rule mset_eq_length)
  with len have four: "length (shuffled_choices sq) = 4" by simp
  have texts: "list_all text_ok (shuffled_choices sq)"
  proof -
    have "text_ok t" if "t \<in> set (shuffled_choices sq)" for t
    proof -
      from that mset_eq_setD [OF ms] have "t \<in> set (map snd (choices q))" by simp
      then obtain c where "(c, t) \<in> set (choices q)" by auto
      with fl obtain ln where ln: "ln \<in> set lines" "choice_re ln = Some (c, t)"
        unfolding from_lines_def by blast
      from choice_re_SomeD [OF ln(2)] have "t = [] \<or> \<not> is_space (hd t)" "set t \<subseteq> set ln"
        by simp_all
      moreover from cl ln(1) have "clean ln" by (simp add: list_all_iff)
      ultimately show ?thesis unfolding text_ok_def by (blast intro: clean_subset)
    qed
    then show ?thesis by (simp add: list_all_iff)
  qed
  from ne hd plain stems four texts l show ?thesis
    unfolding render_ok_def st by simp
qed

text \<open>The lines \<open>splitlines\<close> returns hold no line-break character.\<close>

lemma splitlines_clean: "list_all clean (splitlines s)"
proof (induction s rule: splitlines.induct)
  case (1 s)
  let ?l = "takeWhile (\<lambda>c. \<not> is_linebreak c) s"
  have l: "clean ?l" by (auto simp: clean_def list_all_iff dest: set_takeWhileD)
  show ?case
  proof (cases "s = []")
    case True
    then show ?thesis by (simp add: splitlines.simps [of "[]"])
  next
    case False
    show ?thesis
    proof (cases "dropWhile (\<lambda>c. \<not> is_linebreak c) s")
      case Nil
      with False l show ?thesis
        by (simp add: splitlines.simps [of s] Let_def del: dropWhile_eq_Nil_conv)
    next
      case (Cons c r)
      show ?thesis
      proof (cases "c = CHR 0x0D \<and> r \<noteq> [] \<and> hd r = newline")
        case True
        with "1.IH"(1) [OF False refl Cons True] False Cons l show ?thesis
          by (auto simp: splitlines.simps [of s] Let_def simp del: dropWhile_eq_Nil_conv)
      next
        case other: False
        with "1.IH"(2) [OF False refl Cons other] False Cons l show ?thesis
          by (auto simp: splitlines.simps [of s] Let_def simp del: dropWhile_eq_Nil_conv)
      qed
    qed
  qed
qed

text \<open>
  The round trip: parse, shuffle, render with \<open>format_combined\<close>, split the text into
  lines and parse again. The result holds the questions of the first and of the second
  parse, when every step succeeds.
\<close>

definition reparse ::
  "(nat \<Rightarrow> 'r \<Rightarrow> nat \<times> 'r) \<Rightarrow> 'r \<Rightarrow> string list \<Rightarrow> (Question list \<times> Question list) option" where
  "reparse rb r lines =
     (case parse_questions lines of
        Inl e \<Rightarrow> None
      | Inr (qs, d) \<Rightarrow>
          (case shuffle_questions rb qs r of
             Inl e \<Rightarrow> None
           | Inr (sqs, r') \<Rightarrow>
               (case format_combined sqs of
                  Inl e \<Rightarrow> None
                | Inr out \<Rightarrow>
                    (case parse_questions (splitlines out) of
                       Inl e \<Rightarrow> None
                     | Inr (qs', d') \<Rightarrow> Some (qs, qs')))))"

text \<open>
  Following the specification's words: the same number of questions, each with identical
  stem lines and a permutation of the choice texts.
\<close>

definition same_content :: "Question \<Rightarrow> Question \<Rightarrow> bool" where
  "same_content q q' =
     (Question.stem_lines q' = Question.stem_lines q
      \<and> mset (map snd (choices q')) = mset (map snd (choices q)))"

definition roundtrip_stable :: "(nat \<Rightarrow> 'r \<Rightarrow> nat \<times> 'r) \<Rightarrow> 'r \<Rightarrow> string list \<Rightarrow> bool" where
  "roundtrip_stable rb r lines =
     (case reparse rb r lines of
        None \<Rightarrow> False
      | Some (qs, qs') \<Rightarrow> list_all2 same_content qs qs')"

text \<open>What the code keeps: the first stem line is read back without its indentation.\<close>

definition same_up_to_indent :: "Question \<Rightarrow> Question \<Rightarrow> bool" where
  "same_up_to_indent q q' =
     (Question.stem_lines q'
        = lstrip (hd (Question.stem_lines q)) # tl (Question.stem_lines q)
      \<and> mset (map snd (choices q')) = mset (map snd (choices q)))"

text \<open>
  C2 (as the code behaves). For input lines free of line-break characters (as
  \<open>splitlines\<close> yields them) on which \<open>parse_questions\<close> succeeds, shuffling, rendering
  with \<open>format_combined\<close>, splitting the text into lines and parsing again succeeds and
  gives as many questions; each has the stem lines of the original question, except that
  the first stem line has lost its leading whitespace, and its choice texts are a
  permutation of the original ones.
\<close>

theorem c2_roundtrip_up_to_indent:
  assumes ok: "parse_questions lines = Inr (qs, d)" and cl: "list_all clean lines"
  shows "\<exists>qs'. reparse rb r lines = Some (qs, qs') \<and> list_all2 same_up_to_indent qs qs'"
proof -
  from parse_questions_ok [OF ok] have p: "\<forall>q \<in> set qs. parsed_ok lines q" .
  then have "\<forall>q \<in> set qs. length (choices q) = 4 \<and> answer_letter q \<in> fst ` set (choices q)"
    by (simp add: parsed_ok_def)
  from shuffle_questions_spec [OF this, of rb r] obtain sqs r' where
    sh: "shuffle_questions rb qs r = Inr (sqs, r')" and len: "length sqs = length qs" and
    each: "\<forall>k < length qs.
             stem_lines (sqs ! k) = Question.stem_lines (qs ! k)
             \<and> mset (shuffled_choices (sqs ! k)) = mset (map snd (choices (qs ! k)))
             \<and> new_answer_letter (sqs ! k) \<in> all_letters
             \<and> keeps_answer (qs ! k) (sqs ! k)"
    by blast
  have rok: "list_all render_ok sqs"
  proof -
    have "render_ok (sqs ! k)" if "k < length sqs" for k
    proof -
      from that len have k: "k < length qs" by simp
      with p have "parsed_ok lines (qs ! k)" by simp
      with each k cl show ?thesis by (intro parsed_ok_render_ok [of lines "qs ! k"]) simp_all
    qed
    then show ?thesis by (simp add: list_all_length)
  qed
  have "\<exists>out qs' d'. format_combined sqs = Inr out
          \<and> parse_questions (splitlines out) = Inr (qs', d') \<and> list_all2 reads_back sqs qs'"
  proof (cases "sqs = []")
    case True
    then show ?thesis
      by (simp add: format_combined_def splitlines.simps [of "[]"] parse_questions_def
            parse_loop.simps [of "[]"])
  next
    case False
    let ?ls = "combined_text_lines 1 sqs"
    from combined_lines_eq [OF rok False, of 1] have
      out: "format_combined sqs = Inr (join_nl (?ls @ [[]]))"
      by (simp add: format_combined_def)
    have sp: "splitlines (join_nl (?ls @ [[]])) = ?ls"
      using rok by (intro splitlines_join combined_text_lines_clean)
    have "drop 0 ?ls = combined_text_lines 1 sqs" by simp
    from parse_rendered [OF rok this, of "[]" 0] obtain qs' d' where
      "parse_loop ?ls 0 [] 0 = Inr (qs', d')" "list_all2 reads_back sqs qs'"
      by auto
    with out sp show ?thesis by (simp add: parse_questions_def)
  qed
  then obtain out qs' d' where
    out: "format_combined sqs = Inr out" and
    again: "parse_questions (splitlines out) = Inr (qs', d')" and
    rb: "list_all2 reads_back sqs qs'"
    by blast
  from ok sh out again have run: "reparse rb r lines = Some (qs, qs')"
    by (simp add: reparse_def)
  have "list_all2 same_up_to_indent qs qs'"
  proof (rule list_all2_all_nthI)
    from rb len show "length qs = length qs'" by (simp add: list_all2_lengthD)
  next
    fix k assume k: "k < length qs"
    with rb len have "reads_back (sqs ! k) (qs' ! k)" by (simp add: list_all2_nthD)
    with each k show "same_up_to_indent (qs ! k) (qs' ! k)"
      by (simp add: reads_back_def same_up_to_indent_def)
  qed
  with run show ?thesis by blast
qed


text \<open>
  C2 on an example: a stray line, a question whose stem starts on the numbering line, and
  a question whose indented stem follows a bare numbering line and a blank spacer.
\<close>

theorem c2_example:
  "list_all clean
     [''Intro'', ''1. What?'', ''more'', ''A. x'', [], ''B. y'', ''C. z'', ''D. w'',
      ''Answer: a'', [], ''2.'', [], '' Why?'', ''D. p'', ''C. q'', ''B. r'', ''A. s'',
      ''answer : d'']
   \<and> (\<exists>qs qs'.
         reparse counter_rng 2
           [''Intro'', ''1. What?'', ''more'', ''A. x'', [], ''B. y'', ''C. z'', ''D. w'',
            ''Answer: a'', [], ''2.'', [], '' Why?'', ''D. p'', ''C. q'', ''B. r'', ''A. s'',
            ''answer : d''] = Some (qs, qs')
         \<and> length qs = 2 \<and> list_all2 same_up_to_indent qs qs')"
proof -
  let ?L = "[''Intro'', ''1. What?'', ''more'', ''A. x'', [], ''B. y'', ''C. z'', ''D. w'',
      ''Answer: a'', [], ''2.'', [], '' Why?'', ''D. p'', ''C. q'', ''B. r'', ''A. s'',
      ''answer : d'']"
  let ?qs = "[\<lparr>Question.stem_lines = [''What?'', ''more''],
       choices = [(''A'', ''x''), (''B'', ''y''), (''C'', ''z''), (''D'', ''w'')],
       answer_letter = ''A'', start_line_no = 2\<rparr>,
    \<lparr>Question.stem_lines = ['' Why?''],
       choices = [(''D'', ''p''), (''C'', ''q''), (''B'', ''r''), (''A'', ''s'')],
       answer_letter = ''D'', start_line_no = 11\<rparr>]"
  have cl: "list_all clean ?L" by code_simp
  have r: "parse_questions ?L = Inr (?qs, 2)" by code_simp
  from c2_roundtrip_up_to_indent [OF r cl, of counter_rng 2] obtain qs' where
    "reparse counter_rng 2 ?L = Some (?qs, qs')" "list_all2 same_up_to_indent ?qs qs'"
    by blast
  moreover have "length ?qs = 2" by simp
  ultimately show ?thesis using cl by blast
qed

text \<open>
  C2 as the specification states it does not hold. The stem of the question below starts,
  indented, on the line after a bare numbering line; it is rendered after the number and
  read back without its indentation, so the stem lines are not identical.
\<close>

theorem c2_indented_stem_not_identical:
  "list_all clean [''1.'', ''  Q'', ''A. x'', ''B. y'', ''C. z'', ''D. w'', ''Answer: C'']
   \<and> reparse counter_rng 2
        [''1.'', ''  Q'', ''A. x'', ''B. y'', ''C. z'', ''D. w'', ''Answer: C'']
       = Some ([\<lparr>Question.stem_lines = [''  Q''],
                  choices = [(''A'', ''x''), (''B'', ''y''), (''C'', ''z''), (''D'', ''w'')],
                  answer_letter = ''C'', start_line_no = 1\<rparr>],
               [\<lparr>Question.stem_lines = [''Q''],
                  choices = [(''A'', ''y''), (''B'', ''w''), (''C'', ''x''), (''D'', ''z'')],
                  answer_letter = ''D'', start_line_no = 1\<rparr>])
   \<and> \<not> roundtrip_stable counter_rng 2
          [''1.'', ''  Q'', ''A. x'', ''B. y'', ''C. z'', ''D. w'', ''Answer: C'']"
  by code_simp

section \<open>Determinism of the seeded run\<close>

text \<open>
  Two generators answer alike: from related states, a draw below the same bound returns
  the same number and leaves related states. Two instances of one generator in equal
  states are the case where the relation is equality.
\<close>

definition same_draws ::
  "('a \<Rightarrow> 'b \<Rightarrow> bool) \<Rightarrow> (nat \<Rightarrow> 'a \<Rightarrow> nat \<times> 'a) \<Rightarrow> (nat \<Rightarrow> 'b \<Rightarrow> nat \<times> 'b) \<Rightarrow> bool" where
  "same_draws R rb1 rb2 =
     (\<forall>n a b. R a b \<longrightarrow> fst (rb1 n a) = fst (rb2 n b) \<and> R (snd (rb1 n a)) (snd (rb2 n b)))"

text \<open>A second generator for the examples: it counts like \<open>counter_rng\<close> and also keeps a tally.\<close>

definition tally_rng :: "nat \<Rightarrow> nat \<times> nat \<Rightarrow> nat \<times> (nat \<times> nat)" where
  "tally_rng n s = (fst s, (fst s + 1, snd s + n))"

lemma shuffle_loop_same_draws:
  assumes "same_draws R rb1 rb2" "R a b"
  shows "fst (shuffle_loop rb1 k xs a) = fst (shuffle_loop rb2 k xs b)
         \<and> R (snd (shuffle_loop rb1 k xs a)) (snd (shuffle_loop rb2 k xs b))"
  using assms(2)
proof (induction k arbitrary: xs a b)
  case 0
  then show ?case by simp
next
  case (Suc k)
  obtain d1 a' where r1: "rb1 (Suc k + 1) a = (d1, a')" by (cases "rb1 (Suc k + 1) a")
  obtain d2 b' where r2: "rb2 (Suc k + 1) b = (d2, b')" by (cases "rb2 (Suc k + 1) b")
  from assms(1) Suc.prems have
    "fst (rb1 (Suc k + 1) a) = fst (rb2 (Suc k + 1) b)"
    "R (snd (rb1 (Suc k + 1) a)) (snd (rb2 (Suc k + 1) b))"
    unfolding same_draws_def by blast+
  with r1 r2 have d: "d1 = d2" and rel: "R a' b'" by simp_all
  define ys where "ys = xs[Suc k := xs ! (d1 mod (Suc k + 1)), d1 mod (Suc k + 1) := xs ! Suc k]"
  have s1: "shuffle_loop rb1 (Suc k) xs a = shuffle_loop rb1 k ys a'"
    using r1 by (simp add: Let_def ys_def)
  have s2: "shuffle_loop rb2 (Suc k) xs b = shuffle_loop rb2 k ys b'"
    using r2 d by (simp add: Let_def ys_def)
  from Suc.IH [OF rel, of ys] show ?case unfolding s1 s2 .
qed

definition same_result ::
  "('a \<Rightarrow> 'b \<Rightarrow> bool) \<Rightarrow> shuffle_error + ('c \<times> 'a) \<Rightarrow> shuffle_error + ('c \<times> 'b) \<Rightarrow> bool" where
  "same_result R x y =
     (case x of
        Inl e \<Rightarrow> y = Inl e
      | Inr v \<Rightarrow> (case y of Inl e \<Rightarrow> False | Inr w \<Rightarrow> fst v = fst w \<and> R (snd v) (snd w)))"

lemma shuffle_one_same_draws:
  assumes "same_draws R rb1 rb2" "R a b"
  shows "same_result R (shuffle_one rb1 q a) (shuffle_one rb2 q b)"
proof -
  obtain ys a' where s1: "rng_shuffle rb1 (choices q) a = (ys, a')"
    by (cases "rng_shuffle rb1 (choices q) a")
  obtain zs b' where s2: "rng_shuffle rb2 (choices q) b = (zs, b')"
    by (cases "rng_shuffle rb2 (choices q) b")
  from shuffle_loop_same_draws [OF assms, of "length (choices q) - 1" "choices q"] s1 s2
  have eq: "ys = zs" and rel: "R a' b'" by (simp_all add: rng_shuffle_def)
  show ?thesis
    unfolding shuffle_one_def s1 s2 same_result_def eq using rel
    by (simp split: option.split)
qed

lemma shuffle_questions_same_draws:
  assumes "same_draws R rb1 rb2" "R a b"
  shows "same_result R (shuffle_questions rb1 qs a) (shuffle_questions rb2 qs b)"
  using assms(2)
proof (induction qs arbitrary: a b)
  case Nil
  then show ?case by (simp add: same_result_def)
next
  case (Cons q qs)
  from shuffle_one_same_draws [OF assms(1) Cons.prems, of q]
  have one: "same_result R (shuffle_one rb1 q a) (shuffle_one rb2 q b)" .
  show ?case
  proof (cases "shuffle_one rb1 q a")
    case (Inl e)
    with one have "shuffle_one rb2 q b = Inl e" by (simp add: same_result_def)
    with Inl show ?thesis by (simp add: same_result_def)
  next
    case (Inr v)
    obtain sq a' where v: "v = (sq, a')" by (cases v)
    from one Inr v obtain b' where w: "shuffle_one rb2 q b = Inr (sq, b')" and rel: "R a' b'"
      by (auto simp: same_result_def split: sum.split_asm)
    from Cons.IH [OF rel] have
      rest: "same_result R (shuffle_questions rb1 qs a') (shuffle_questions rb2 qs b')" .
    show ?thesis
    proof (cases "shuffle_questions rb1 qs a'")
      case (Inl e)
      with rest have "shuffle_questions rb2 qs b' = Inl e" by (simp add: same_result_def)
      with Inl Inr v w show ?thesis by (simp add: same_result_def)
    next
      case inr: (Inr u)
      obtain sqs a'' where u: "u = (sqs, a'')" by (cases u)
      from rest inr u obtain b'' where
        "shuffle_questions rb2 qs b' = Inr (sqs, b'')" "R a'' b''"
        by (auto simp: same_result_def split: sum.split_asm)
      with inr u Inr v w show ?thesis by (simp add: same_result_def)
    qed
  qed
qed

text \<open>
  C3. The combined run consults the generator only through the numbers it draws. So two
  runs on the same lines, each with its own generator made from the same seed, return the
  same text (or the same error) whenever the two generators, started from that seed,
  answer alike; the state the system would have supplied to an unseeded generator plays
  no part. Two instances of one generator class seeded alike are the case where the
  drawing functions are the same and the relation is equality.
\<close>

theorem c3_same_seed_same_output:
  assumes "same_draws R rb1 rb2" and "R (seeded1 seed) (seeded2 seed)"
  shows "process_combined rb1 seeded1 entropy1 lines (Some seed)
           = process_combined rb2 seeded2 entropy2 lines (Some seed)"
proof (cases "parse_questions lines")
  case (Inl e)
  then show ?thesis by (simp add: process_combined_def)
next
  case (Inr p)
  obtain parsed discarded where p: "p = (parsed, discarded)" by (cases p)
  from shuffle_questions_same_draws [OF assms, of parsed]
  have s: "same_result R (shuffle_questions rb1 parsed (seeded1 seed))
             (shuffle_questions rb2 parsed (seeded2 seed))" .
  show ?thesis
  proof (cases "shuffle_questions rb1 parsed (seeded1 seed)")
    case (Inl e)
    with s have "shuffle_questions rb2 parsed (seeded2 seed) = Inl e"
      by (simp add: same_result_def)
    with Inl Inr p show ?thesis by (simp add: process_combined_def new_rng_def)
  next
    case inr: (Inr v)
    obtain sqs a where v: "v = (sqs, a)" by (cases v)
    from s inr v obtain b where "shuffle_questions rb2 parsed (seeded2 seed) = Inr (sqs, b)"
      by (auto simp: same_result_def split: sum.split_asm)
    with inr v Inr p show ?thesis by (simp add: process_combined_def new_rng_def)
  qed
qed

text \<open>
  C3 on an example: a counting generator and one that also keeps a tally answer alike, and
  the run returns the same text with either.
\<close>

definition counts_alike :: "nat \<Rightarrow> nat \<times> nat \<Rightarrow> bool" where
  "counts_alike a b = (fst b = a)"

definition tally_seeded :: "int \<Rightarrow> nat \<times> nat" where
  "tally_seeded k = (nat k, 0)"

theorem c3_example:
  "same_draws counts_alike counter_rng tally_rng
   \<and> counts_alike (nat 2) (tally_seeded 2)
   \<and> process_combined counter_rng nat 0
        [''1. Q'', ''A. x'', ''B. y'', ''C. z'', ''D. w'', ''Answer: C''] (Some 2)
      = process_combined tally_rng tally_seeded (7, 7)
          [''1. Q'', ''A. x'', ''B. y'', ''C. z'', ''D. w'', ''Answer: C''] (Some 2)
   \<and> process_combined counter_rng nat 0
        [''1. Q'', ''A. x'', ''B. y'', ''C. z'', ''D. w'', ''Answer: C''] (Some 2)
      = Inr ''1. Q\<newline>A. y\<newline>B. w\<newline>C. x\<newline>D. z\<newline>\<newline>Answer: D\<newline>''"
proof -
  have sd: "same_draws counts_alike counter_rng tally_rng"
    by (simp add: same_draws_def counts_alike_def counter_rng_def tally_rng_def)
  have rel: "counts_alike (nat 2) (tally_seeded 2)"
    by (simp add: counts_alike_def tally_seeded_def)
  have out: "process_combined counter_rng nat 0
        [''1. Q'', ''A. x'', ''B. y'', ''C. z'', ''D. w'', ''Answer: C''] (Some 2)
      = Inr ''1. Q\<newline>A. y\<newline>B. w\<newline>C. x\<newline>D. z\<newline>\<newline>Answer: D\<newline>''"
    by code_simp
  have "process_combined counter_rng nat 0
        [''1. Q'', ''A. x'', ''B. y'', ''C. z'', ''D. w'', ''Answer: C''] (Some 2)
      = process_combined tally_rng tally_seeded (7, 7)
          [''1. Q'', ''A. x'', ''B. y'', ''C. z'', ''D. w'', ''Answer: C''] (Some 2)"
    using sd rel by (rule c3_same_seed_same_output)
  with sd rel out show ?thesis by simp
qed

end
